theory Spec2Isabelle
  imports Main "HOL-Library.AList"
begin

section \<open>Data model\<close>

text \<open>
  An \<open>Asset\<close> of the client library is an object all of whose fields are optional.
  The fields the replicator reads or writes are listed; every other field of the
  object lives in the extension part \<open>more\<close> of the record. A metadata dictionary
  is an association list in insertion order (a Python \<open>dict\<close>), looked up with
  \<open>map_of\<close> and written with \<open>AList.update\<close>.
\<close>

type_synonym metadata_dict = "(string \<times> string) list"

record asset =
  asset_id :: "int option"
  external_id :: "string option"
  name :: "string option"
  parent_id :: "int option"
  description :: "string option"
  metadata :: "metadata_dict option"
  source :: "string option"

datatype error = KeyError | ValueError | AttributeError | TypeError | StoreError

type_synonym id_mapping = "int \<rightharpoonup> int"

section \<open>Python primitives\<close>

text \<open>\<open>str(n)\<close> for an integer: decimal digits, a leading minus sign when negative.\<close>

definition digit_char :: "nat \<Rightarrow> char" where
  "digit_char d = ''0123456789'' ! d"

fun str_nat :: "nat \<Rightarrow> string" where
  "str_nat n = (if n < 10 then [digit_char n] else str_nat (n div 10) @ [digit_char (n mod 10)])"

declare str_nat.simps [simp del]

definition py_str :: "int \<Rightarrow> string" where
  "py_str i = (if i < 0 then CHR ''-'' # str_nat (nat (- i)) else str_nat (nat i))"

text \<open>\<open>str(x)\<close> for an optional integer: \<open>str(None)\<close> is the text \<open>None\<close>.\<close>

definition py_str_opt :: "int option \<Rightarrow> string" where
  "py_str_opt x = (case x of None \<Rightarrow> ''None'' | Some i \<Rightarrow> py_str i)"

text \<open>
  \<open>int(s)\<close> for a string of ASCII characters: surrounding whitespace is dropped,
  one sign is allowed, then decimal digits in groups separated by single
  underscores; anything else raises \<open>ValueError\<close>.
\<close>

definition is_digit :: "char \<Rightarrow> bool" where
  "is_digit c = ((48::nat) \<le> of_char c \<and> of_char c \<le> (57::nat))"

definition digit_val :: "char \<Rightarrow> nat" where
  "digit_val c = of_char c - (48::nat)"

definition is_space :: "char \<Rightarrow> bool" where
  "is_space c = (of_char c \<in> {9, 10, 11, 12, 13, 28, 29, 30, 31, 32 :: nat})"

definition strip :: "string \<Rightarrow> string" where
  "strip s = rev (dropWhile is_space (rev (dropWhile is_space s)))"

fun digit_groups :: "string \<Rightarrow> bool" where
  "digit_groups [] = False"
| "digit_groups [c] = is_digit c"
| "digit_groups (c # d # cs) =
     (if is_digit c then digit_groups (d # cs)
      else c = CHR ''_'' \<and> is_digit d \<and> digit_groups (d # cs))"

definition parse_nat :: "string \<Rightarrow> nat option" where
  "parse_nat s =
     (case s of [] \<Rightarrow> None
      | c # cs \<Rightarrow>
          if is_digit c \<and> digit_groups s
          then Some (foldl (\<lambda>acc d. 10 * acc + digit_val d) 0 (filter is_digit s))
          else None)"

definition py_int :: "string \<Rightarrow> error + int" where
  "py_int s =
     (case strip s of
        [] \<Rightarrow> Inl ValueError
      | c # cs \<Rightarrow>
          if c = CHR ''-'' then
            (case parse_nat cs of None \<Rightarrow> Inl ValueError | Some n \<Rightarrow> Inr (- int n))
          else if c = CHR ''+'' then
            (case parse_nat cs of None \<Rightarrow> Inl ValueError | Some n \<Rightarrow> Inr (int n))
          else
            (case parse_nat (c # cs) of None \<Rightarrow> Inl ValueError | Some n \<Rightarrow> Inr (int n)))"

text \<open>
  \<open>m[k]\<close> on an optional dictionary: \<open>None\<close> is not subscriptable, a missing key
  raises \<open>KeyError\<close>.
\<close>

definition getitem :: "metadata_dict option \<Rightarrow> string \<Rightarrow> error + string" where
  "getitem m k =
     (case m of
        None \<Rightarrow> Inl TypeError
      | Some d \<Rightarrow> (case map_of d k of None \<Rightarrow> Inl KeyError | Some v \<Rightarrow> Inr v))"

text \<open>Truthiness of an optional dictionary: \<open>None\<close> and \<open>{}\<close> are false.\<close>

definition truthy :: "metadata_dict option \<Rightarrow> bool" where
  "truthy m = (case m of None \<Rightarrow> False | Some d \<Rightarrow> d \<noteq> [])"

section \<open>Metadata tagger\<close>

text \<open>
  Modelled from the spec: \<open>replication.new_metadata\<close> is not part of the sources at
  hand. Section 4.1 of the specification: a new metadata mapping copying the source
  asset's own metadata plus the three replication keys \<open>_replicatedSource\<close> (source
  project name), \<open>_replicatedInternalId\<close> (source asset's internal id, stringified)
  and \<open>_replicatedTime\<close> (run timestamp), overwriting any pre-existing replication
  keys; the input asset is not changed.
\<close>

definition new_metadata :: "'a asset_scheme \<Rightarrow> string \<Rightarrow> int \<Rightarrow> metadata_dict" where
  "new_metadata obj project_src replicated_runtime =
     AList.update ''_replicatedTime'' (py_str replicated_runtime)
       (AList.update ''_replicatedInternalId'' (py_str_opt (asset_id obj))
         (AList.update ''_replicatedSource'' project_src
           (case metadata obj of None \<Rightarrow> [] | Some d \<Rightarrow> d)))"

section \<open>Payload builders\<close>

text \<open>
  \<open>build_asset_create\<close>: the keyword arguments of the \<open>Asset\<close> constructor are
  evaluated in order, the subscript \<open>src_id_dst_map[src_asset.parent_id]\<close> last and
  only when \<open>depth > 0\<close>; it raises \<open>KeyError\<close> when the key (an id or \<open>None\<close>) is
  not in the dictionary. The payload carries no internal id.
\<close>

definition build_asset_create ::
  "'a asset_scheme \<Rightarrow> id_mapping \<Rightarrow> string \<Rightarrow> int \<Rightarrow> int \<Rightarrow> error + asset" where
  "build_asset_create src_asset src_id_dst_map project_src runtime depth =
     (let md = new_metadata src_asset project_src runtime in
      if depth > 0 then
        (case parent_id src_asset of
           None \<Rightarrow> Inl KeyError
         | Some p \<Rightarrow>
             (case src_id_dst_map p of
                None \<Rightarrow> Inl KeyError
              | Some d \<Rightarrow>
                  Inr \<lparr>asset_id = None, external_id = external_id src_asset,
                       name = name src_asset, parent_id = Some d,
                       description = description src_asset, metadata = Some md,
                       source = source src_asset\<rparr>))
      else
        Inr \<lparr>asset_id = None, external_id = external_id src_asset,
             name = name src_asset, parent_id = None,
             description = description src_asset, metadata = Some md,
             source = source src_asset\<rparr>)"

text \<open>
  \<open>build_asset_update\<close> assigns five attributes of the destination object and returns
  it; the mapping and the depth are accepted and not read.
\<close>

definition build_asset_update ::
  "'a asset_scheme \<Rightarrow> 'b asset_scheme \<Rightarrow> id_mapping \<Rightarrow> string \<Rightarrow> int \<Rightarrow> int \<Rightarrow> 'b asset_scheme" where
  "build_asset_update src_asset dst_asset src_id_dst_map project_src runtime depth =
     dst_asset\<lparr>external_id := external_id src_asset,
               name := name src_asset,
               description := description src_asset,
               metadata := Some (new_metadata src_asset project_src runtime),
               source := source src_asset\<rparr>"

section \<open>The destination client\<close>

text \<open>
  The catalog client is an external collaborator. Its four operations on assets are
  the fields of a record, over a store state of any type: listing reads the state,
  the three writes may raise and otherwise return the new state.
\<close>

record 'st client =
  assets_list :: "'st \<Rightarrow> asset list"
  assets_create :: "'st \<Rightarrow> asset list \<Rightarrow> error + asset list \<times> 'st"
  assets_update :: "'st \<Rightarrow> asset list \<Rightarrow> error + asset list \<times> 'st"
  assets_delete :: "'st \<Rightarrow> int option list \<Rightarrow> error + 'st"

text \<open>
  Modelled from the spec: \<open>replication.retry\<close> is not part of the sources at hand.
  Section 6: the wrapper returns whatever the operation returns on eventual success
  and surfaces the error otherwise.
\<close>

definition retry :: "('st \<Rightarrow> 'a \<Rightarrow> error + 'b \<times> 'st) \<Rightarrow> 'st \<Rightarrow> 'a \<Rightarrow> error + 'b \<times> 'st" where
  "retry operation st batch = operation st batch"

text \<open>
  Modelled from the spec: the catalog store is an external service and not part of
  the sources at hand. Section 6: create assigns internal ids (here: consecutive
  fresh ones) and returns the created assets, update returns the updated assets
  (here: each replaces the stored asset of the same internal id), delete removes
  the listed ids and accepts ids that are not there.
\<close>

record store =
  store_assets :: "asset list"
  next_id :: int

definition assign_ids :: "int \<Rightarrow> asset list \<Rightarrow> asset list" where
  "assign_ids n payloads =
     map (\<lambda>(k, p). p\<lparr>asset_id := Some (n + int k)\<rparr>) (enumerate 0 payloads)"

definition store_create :: "store \<Rightarrow> asset list \<Rightarrow> error + asset list \<times> store" where
  "store_create st payloads =
     (let created = assign_ids (next_id st) payloads in
      Inr (created, \<lparr>store_assets = store_assets st @ created,
                     next_id = next_id st + int (length payloads)\<rparr>))"

definition store_update :: "store \<Rightarrow> asset list \<Rightarrow> error + asset list \<times> store" where
  "store_update st items =
     Inr (items,
          st\<lparr>store_assets :=
               map (\<lambda>a. case find (\<lambda>x. asset_id x = asset_id a) (rev items) of
                           None \<Rightarrow> a | Some x \<Rightarrow> x) (store_assets st)\<rparr>)"

definition store_delete :: "store \<Rightarrow> int option list \<Rightarrow> error + store" where
  "store_delete st ids =
     Inr (st\<lparr>store_assets := filter (\<lambda>a. asset_id a \<notin> set ids) (store_assets st)\<rparr>)"

definition memory_client :: "store client" where
  "memory_client =
     \<lparr>assets_list = store_assets, assets_create = store_create,
      assets_update = store_update, assets_delete = store_delete\<rparr>"

text \<open>
  A client whose writes succeed: create returns one stored asset per payload, with
  an internal id and the payload's metadata; update returns the submitted assets
  with their ids and metadata.
\<close>

definition faithful :: "'st client \<Rightarrow> bool" where
  "faithful client \<longleftrightarrow>
     (\<forall>st xs. \<exists>ys st'. assets_create client st xs = Inr (ys, st') \<and>
        list_all2 (\<lambda>y x. metadata y = metadata x \<and> asset_id y \<noteq> None) ys xs) \<and>
     (\<forall>st xs. \<exists>ys st'. assets_update client st xs = Inr (ys, st') \<and>
        list_all2 (\<lambda>y x. metadata y = metadata x \<and> asset_id y = asset_id x) ys xs)"

section \<open>Selecting the next depth\<close>

text \<open>
  \<open>find_children\<close>: for the sentinel list \<open>[None]\<close> the membership test runs on the
  list itself and selects the assets without a parent id; for any other list the
  ids of the parents are collected, which raises \<open>AttributeError\<close> on a \<open>None\<close>
  element.
\<close>

definition find_children :: "asset list \<Rightarrow> asset option list \<Rightarrow> error + asset list" where
  "find_children assets parents =
     (if parents \<noteq> [None] then
        (case those parents of
           None \<Rightarrow> Inl AttributeError
         | Some ps \<Rightarrow> Inr (filter (\<lambda>a. parent_id a \<in> set (map asset_id ps)) assets))
      else Inr (filter (\<lambda>a. parent_id a = None) assets))"

section \<open>Record classifier and id mapping\<close>

text \<open>
  Modelled from the spec: the replication keys of section 3, and a metadata
  dictionary without them (an absent dictionary counts as empty).
\<close>

definition replication_keys :: "string list" where
  "replication_keys = [''_replicatedSource'', ''_replicatedInternalId'', ''_replicatedTime'']"

definition own_metadata :: "metadata_dict option \<Rightarrow> metadata_dict" where
  "own_metadata m =
     filter (\<lambda>(k, v). k \<notin> set replication_keys) (case m of None \<Rightarrow> [] | Some d \<Rightarrow> d)"

text \<open>
  Modelled from the spec: equality of two metadata dictionaries, which does not look
  at the order of the entries.
\<close>

definition dict_eq :: "metadata_dict \<Rightarrow> metadata_dict \<Rightarrow> bool" where
  "dict_eq d e = (\<forall>k \<in> set (map fst d) \<union> set (map fst e). map_of d k = map_of e k)"

text \<open>
  Modelled from the spec: the comparison made by \<open>replication.make_objects_batch\<close>,
  which is not part of the sources at hand. Section 4.2: equality covers
  external id, name, description, source and the metadata excluding the replication
  keys; any difference triggers an update.
\<close>

definition fields_differ :: "asset \<Rightarrow> asset \<Rightarrow> bool" where
  "fields_differ src_obj dst_obj =
     (external_id src_obj \<noteq> external_id dst_obj \<or>
      name src_obj \<noteq> name dst_obj \<or>
      description src_obj \<noteq> description dst_obj \<or>
      source src_obj \<noteq> source dst_obj \<or>
      \<not> dict_eq (own_metadata (metadata src_obj)) (own_metadata (metadata dst_obj)))"

text \<open>
  Modelled from the spec: the source internal id a destination asset is tagged with
  (section 3), the number written under \<open>_replicatedInternalId\<close>, if the asset has
  that tag and it reads as a number.
\<close>

definition replicated_internal_id :: "asset \<Rightarrow> int option" where
  "replicated_internal_id a =
     (case metadata a of
        None \<Rightarrow> None
      | Some d \<Rightarrow>
          (case map_of d ''_replicatedInternalId'' of
             None \<Rightarrow> None
           | Some v \<Rightarrow> (case py_int v of Inl e \<Rightarrow> None | Inr i \<Rightarrow> Some i)))"

text \<open>
  Modelled from the spec: \<open>replication.make_id_object_map\<close> is not part of the
  sources at hand. Sections 3 and 4.2: a lookup from source id to the existing
  destination asset, if any, the counterpart being recognised by its
  \<open>_replicatedInternalId\<close>; a later asset of the listing replaces an earlier one
  with the same tag, and an asset without a readable tag has no entry.
\<close>

fun make_id_object_map :: "asset list \<Rightarrow> (int \<rightharpoonup> asset)" where
  "make_id_object_map [] = Map.empty"
| "make_id_object_map (obj # objects) =
     (case replicated_internal_id obj of
        None \<Rightarrow> make_id_object_map objects
      | Some i \<Rightarrow>
          (case make_id_object_map objects i of
             None \<Rightarrow> (make_id_object_map objects)(i \<mapsto> obj)
           | Some later \<Rightarrow> make_id_object_map objects))"

text \<open>
  Modelled from the spec: \<open>replication.existing_mapping\<close> is not part of the sources
  at hand. Section 4.3, step 5: the outcome assets are folded into the id mapping,
  each asset's source internal id as key and its resulting destination internal id
  as value; entries are added or overwritten, never removed. An outcome without a
  readable tag or without an internal id adds nothing.
\<close>

fun existing_mapping :: "asset list \<Rightarrow> id_mapping \<Rightarrow> id_mapping" where
  "existing_mapping [] ids = ids"
| "existing_mapping (obj # objects) ids =
     existing_mapping objects
       (case replicated_internal_id obj of
          None \<Rightarrow> ids
        | Some k \<Rightarrow> (case asset_id obj of None \<Rightarrow> ids | Some v \<Rightarrow> ids(k \<mapsto> v)))"

text \<open>
  Modelled from the spec: the destination counterpart of a source asset (section
  4.2), the entry of the lookup under the source asset's internal id, if there is
  one.
\<close>

definition counterpart :: "(int \<rightharpoonup> asset) \<Rightarrow> asset \<Rightarrow> asset option" where
  "counterpart src_id_dst_map src_obj =
     (case asset_id src_obj of None \<Rightarrow> None | Some i \<Rightarrow> src_id_dst_map i)"

text \<open>
  Modelled from the spec: \<open>replication.make_objects_batch\<close> is not part of the
  sources at hand. Section 4.2: the batch is split, in order, into the payloads to
  create (no destination counterpart; built by the \<open>create\<close> argument, whose error
  ends the batch), the payloads to update (a counterpart whose replicable fields
  differ; built by the \<open>update\<close> argument) and the unchanged destination assets.
\<close>

fun make_objects_batch ::
  "asset list \<Rightarrow> (int \<rightharpoonup> asset) \<Rightarrow> id_mapping \<Rightarrow>
   (asset \<Rightarrow> id_mapping \<Rightarrow> string \<Rightarrow> int \<Rightarrow> int \<Rightarrow> error + asset) \<Rightarrow>
   (asset \<Rightarrow> asset \<Rightarrow> id_mapping \<Rightarrow> string \<Rightarrow> int \<Rightarrow> int \<Rightarrow> asset) \<Rightarrow>
   string \<Rightarrow> int \<Rightarrow> int \<Rightarrow> error + asset list \<times> asset list \<times> asset list" where
  "make_objects_batch [] src_id_dst_map src_dst_ids create update project_src runtime depth =
     Inr ([], [], [])"
| "make_objects_batch (src_obj # src_objects) src_id_dst_map src_dst_ids create update
       project_src runtime depth =
     (case counterpart src_id_dst_map src_obj of
        None \<Rightarrow>
          (case create src_obj src_dst_ids project_src runtime depth of
             Inl e \<Rightarrow> Inl e
           | Inr new_asset \<Rightarrow>
               (case make_objects_batch src_objects src_id_dst_map src_dst_ids create update
                       project_src runtime depth of
                  Inl e \<Rightarrow> Inl e
                | Inr (cs, us, ns) \<Rightarrow> Inr (new_asset # cs, us, ns)))
      | Some dst_obj \<Rightarrow>
          (case make_objects_batch src_objects src_id_dst_map src_dst_ids create update
                  project_src runtime depth of
             Inl e \<Rightarrow> Inl e
           | Inr (cs, us, ns) \<Rightarrow>
               if fields_differ src_obj dst_obj
               then Inr (cs, update src_obj dst_obj src_dst_ids project_src runtime depth # us, ns)
               else Inr (cs, us, dst_obj # ns)))"

section \<open>Hierarchy walker\<close>

text \<open>
  One pass of the body of the \<open>while\<close> loop of \<open>create_hierarchy\<close>: classify the
  children, submit the two batches, fold the outcomes into the mapping, advance the
  depth and select the next children.
\<close>

definition hierarchy_step ::
  "'st client \<Rightarrow> asset list \<Rightarrow> (int \<rightharpoonup> asset) \<Rightarrow> string \<Rightarrow> int \<Rightarrow>
   int \<times> asset list \<times> id_mapping \<times> 'st \<Rightarrow> error + int \<times> asset list \<times> id_mapping \<times> 'st" where
  "hierarchy_step client src_assets src_id_dst_asset project_src runtime s =
     (case s of (depth, children, src_dst_ids, st) \<Rightarrow>
      (case make_objects_batch children src_id_dst_asset src_dst_ids
              build_asset_create build_asset_update project_src runtime depth of
         Inl e \<Rightarrow> Inl e
       | Inr (create_assets, update_assets, unchanged_assets) \<Rightarrow>
           (case retry (assets_create client) st create_assets of
              Inl e \<Rightarrow> Inl e
            | Inr (created_assets, st1) \<Rightarrow>
                (case retry (assets_update client) st1 update_assets of
                   Inl e \<Rightarrow> Inl e
                 | Inr (updated_assets, st2) \<Rightarrow>
                     (case find_children src_assets (map Some children) of
                        Inl e \<Rightarrow> Inl e
                      | Inr children' \<Rightarrow>
                          Inr (depth + 1, children',
                               existing_mapping
                                 (created_assets @ updated_assets @ unchanged_assets)
                                 src_dst_ids,
                               st2))))))"

text \<open>The \<open>while children:\<close> loop; a run that never leaves the loop has no value.\<close>

partial_function (option) hierarchy_loop ::
  "'st client \<Rightarrow> asset list \<Rightarrow> (int \<rightharpoonup> asset) \<Rightarrow> string \<Rightarrow> int \<Rightarrow>
   int \<times> asset list \<times> id_mapping \<times> 'st \<Rightarrow> (error + id_mapping \<times> 'st) option" where
  "hierarchy_loop client src_assets src_id_dst_asset project_src runtime s =
     (if fst (snd s) = [] then Some (Inr (fst (snd (snd s)), snd (snd (snd s))))
      else
        (case hierarchy_step client src_assets src_id_dst_asset project_src runtime s of
           Inl e \<Rightarrow> Some (Inl e)
         | Inr s' \<Rightarrow> hierarchy_loop client src_assets src_id_dst_asset project_src runtime s'))"

definition create_hierarchy ::
  "asset list \<Rightarrow> asset list \<Rightarrow> string \<Rightarrow> int \<Rightarrow> 'st client \<Rightarrow> 'st \<Rightarrow>
   (error + id_mapping \<times> 'st) option" where
  "create_hierarchy src_assets dst_assets project_src runtime client st =
     (case find_children src_assets [None] of
        Inl e \<Rightarrow> Some (Inl e)
      | Inr children \<Rightarrow>
          hierarchy_loop client src_assets (make_id_object_map dst_assets) project_src runtime
            (0, children, Map.empty, st))"

text \<open>
  The loop states a run of \<open>create_hierarchy\<close> passes through, each taken at the
  test of the loop condition.
\<close>

inductive walk ::
  "'st client \<Rightarrow> asset list \<Rightarrow> asset list \<Rightarrow> string \<Rightarrow> int \<Rightarrow> 'st \<Rightarrow>
   int \<times> asset list \<times> id_mapping \<times> 'st \<Rightarrow> bool"
  for client src_assets dst_assets project_src runtime st where
  walk_start:
    "find_children src_assets [None] = Inr children \<Longrightarrow>
     walk client src_assets dst_assets project_src runtime st (0, children, Map.empty, st)"
| walk_next:
    "walk client src_assets dst_assets project_src runtime st s \<Longrightarrow>
     fst (snd s) \<noteq> [] \<Longrightarrow>
     hierarchy_step client src_assets (make_id_object_map dst_assets) project_src runtime s
       = Inr s' \<Longrightarrow>
     walk client src_assets dst_assets project_src runtime st s'"

text \<open>The children of each depth, as the successive calls of \<open>find_children\<close> give them.\<close>

fun levels :: "asset list \<Rightarrow> nat \<Rightarrow> asset list" where
  "levels src_assets 0 =
     (case find_children src_assets [None] of Inl e \<Rightarrow> [] | Inr cs \<Rightarrow> cs)"
| "levels src_assets (Suc d) =
     (case find_children src_assets (map Some (levels src_assets d)) of
        Inl e \<Rightarrow> [] | Inr cs \<Rightarrow> cs)"

declare levels.simps [simp del]

text \<open>
  The parent relation of the source list: a root has no parent id; an asset is one
  level below any asset of the list whose internal id is its parent id.
\<close>

inductive has_depth :: "asset list \<Rightarrow> asset \<Rightarrow> nat \<Rightarrow> bool" for src_assets where
  depth_root: "parent_id a = None \<Longrightarrow> has_depth src_assets a 0"
| depth_child:
    "p \<in> set src_assets \<Longrightarrow> has_depth src_assets p d \<Longrightarrow>
     asset_id p = Some i \<Longrightarrow> parent_id a = Some i \<Longrightarrow> has_depth src_assets a (Suc d)"

inductive root_reachable :: "asset list \<Rightarrow> asset \<Rightarrow> bool" for src_assets where
  reach_root: "parent_id a = None \<Longrightarrow> root_reachable src_assets a"
| reach_child:
    "p \<in> set src_assets \<Longrightarrow> root_reachable src_assets p \<Longrightarrow>
     asset_id p = Some i \<Longrightarrow> parent_id a = Some i \<Longrightarrow> root_reachable src_assets a"

section \<open>Deletion sweeps\<close>

text \<open>
  The loop of \<open>remove_not_replicated_in_dst\<close> over the listing, with the list of ids
  collected so far; the subscript is evaluated only when the metadata is truthy.
\<close>

fun not_replicated_ids :: "asset list \<Rightarrow> int option list \<Rightarrow> error + int option list" where
  "not_replicated_ids [] asset_ids_to_remove = Inr asset_ids_to_remove"
| "not_replicated_ids (a # listing) asset_ids_to_remove =
     (if \<not> truthy (metadata a)
      then not_replicated_ids listing (asset_ids_to_remove @ [asset_id a])
      else
        (case getitem (metadata a) ''_replicatedSource'' of
           Inl e \<Rightarrow> Inl e
         | Inr v \<Rightarrow>
             if v = [] then not_replicated_ids listing (asset_ids_to_remove @ [asset_id a])
             else not_replicated_ids listing asset_ids_to_remove))"

definition remove_not_replicated_in_dst ::
  "'st client \<Rightarrow> 'st \<Rightarrow> error + int option list \<times> 'st" where
  "remove_not_replicated_in_dst client_dst st =
     (case not_replicated_ids (assets_list client_dst st) [] of
        Inl e \<Rightarrow> Inl e
      | Inr asset_ids_to_remove \<Rightarrow>
          (case assets_delete client_dst st asset_ids_to_remove of
             Inl e \<Rightarrow> Inl e
           | Inr st' \<Rightarrow> Inr (asset_ids_to_remove, st')))"

text \<open>
  The loop of \<open>remove_replicated_if_not_in_src\<close>: the inner test reads the tag as a
  number and looks it up among the ids of the source assets.
\<close>

fun replicated_ids_in_src ::
  "int option list \<Rightarrow> asset list \<Rightarrow> int option list \<Rightarrow> error + int option list" where
  "replicated_ids_in_src src_asset_ids [] asset_ids_to_remove = Inr asset_ids_to_remove"
| "replicated_ids_in_src src_asset_ids (a # listing) asset_ids_to_remove =
     (if \<not> truthy (metadata a)
      then replicated_ids_in_src src_asset_ids listing asset_ids_to_remove
      else
        (case getitem (metadata a) ''_replicatedInternalId'' of
           Inl e \<Rightarrow> Inl e
         | Inr v \<Rightarrow>
             if v = [] then replicated_ids_in_src src_asset_ids listing asset_ids_to_remove
             else
               (case py_int v of
                  Inl e \<Rightarrow> Inl e
                | Inr i \<Rightarrow>
                    if Some i \<in> set src_asset_ids
                    then replicated_ids_in_src src_asset_ids listing
                           (asset_ids_to_remove @ [asset_id a])
                    else replicated_ids_in_src src_asset_ids listing asset_ids_to_remove)))"

definition remove_replicated_if_not_in_src ::
  "asset list \<Rightarrow> 'st client \<Rightarrow> 'st \<Rightarrow> error + int option list \<times> 'st" where
  "remove_replicated_if_not_in_src src_assets client_dst st =
     (case replicated_ids_in_src (map asset_id src_assets) (assets_list client_dst st) [] of
        Inl e \<Rightarrow> Inl e
      | Inr asset_ids_to_remove \<Rightarrow>
          (case assets_delete client_dst st asset_ids_to_remove of
             Inl e \<Rightarrow> Inl e
           | Inr st' \<Rightarrow> Inr (asset_ids_to_remove, st')))"

section \<open>Replication driver\<close>

text \<open>
  \<open>replicate\<close>: the two listings are taken first, the run timestamp is the clock
  reading in whole seconds times 1000, the hierarchy is walked, then each sweep
  runs if its flag is set. The function returns nothing; the model returns the
  destination state it leaves.
\<close>

definition replicate ::
  "string \<Rightarrow> 's client \<Rightarrow> 's \<Rightarrow> 'st client \<Rightarrow> 'st \<Rightarrow> int \<Rightarrow> bool \<Rightarrow> bool \<Rightarrow>
   (error + 'st) option" where
  "replicate project_src client_src st_src client_dst st_dst now
       delete_replicated_if_not_in_src delete_not_replicated_in_dst =
     (let assets_src = assets_list client_src st_src;
          assets_dst = assets_list client_dst st_dst;
          replicated_runtime = now * 1000
      in
      (case create_hierarchy assets_src assets_dst project_src replicated_runtime
              client_dst st_dst of
         None \<Rightarrow> None
       | Some (Inl e) \<Rightarrow> Some (Inl e)
       | Some (Inr (src_dst_ids_assets, st1)) \<Rightarrow>
           (case (if delete_replicated_if_not_in_src
                  then map_sum (\<lambda>e. e) snd (remove_replicated_if_not_in_src assets_src client_dst st1)
                  else Inr st1) of
              Inl e \<Rightarrow> Some (Inl e)
            | Inr st2 \<Rightarrow>
                if delete_not_replicated_in_dst
                then Some (map_sum (\<lambda>e. e) snd (remove_not_replicated_in_dst client_dst st2))
                else Some (Inr st2))))"

section \<open>Example data\<close>

text \<open>
  A small source hierarchy: a root, a child of the root, and an asset whose parent
  id names no asset of the list; and an empty destination store.
\<close>

definition root1 :: asset where
  "root1 = \<lparr>asset_id = Some 1, external_id = Some ''root'', name = Some ''Root'',
            parent_id = None, description = None, metadata = None, source = None\<rparr>"

definition child2 :: asset where
  "child2 = \<lparr>asset_id = Some 2, external_id = Some ''child'', name = Some ''Child'',
             parent_id = Some 1, description = None, metadata = None, source = None\<rparr>"

definition orphan3 :: asset where
  "orphan3 = \<lparr>asset_id = Some 3, external_id = Some ''orphan'', name = Some ''Orphan'',
              parent_id = Some 9, description = None, metadata = None, source = None\<rparr>"

definition empty_store :: store where
  "empty_store = \<lparr>store_assets = [], next_id = 100\<rparr>"

text \<open>
  A destination that already holds the replica of the root, written by an earlier
  run under an older name.
\<close>

definition stale_root :: asset where
  "stale_root = \<lparr>asset_id = Some 100, external_id = Some ''root'', name = Some ''Old root'',
      parent_id = None, description = None,
      metadata = Some [(''_replicatedSource'', ''src''), (''_replicatedInternalId'', ''1''),
                       (''_replicatedTime'', ''4000'')],
      source = None\<rparr>"

definition seeded_store :: store where
  "seeded_store = \<lparr>store_assets = [stale_root], next_id = 101\<rparr>"

section \<open>Properties\<close>

subsection \<open>Printing and reading integers\<close>

lemma digit_char_props:
  assumes "d < 10"
  shows "is_digit (digit_char d)" "digit_val (digit_char d) = d"
proof -
  from assms have "d \<in> {0,1,2,3,4,5,6,7,8,9}" by auto
  then show "is_digit (digit_char d)" "digit_val (digit_char d) = d"
    by (auto simp: digit_char_def is_digit_def digit_val_def)
qed

lemma str_nat_digits: "c \<in> set (str_nat n) \<Longrightarrow> is_digit c"
  by (induction n arbitrary: c rule: str_nat.induct)
     (subst (asm) str_nat.simps, auto simp: digit_char_props split: if_splits)

lemma str_nat_nonempty: "str_nat n \<noteq> []"
  by (subst str_nat.simps) simp

lemma str_nat_value: "foldl (\<lambda>acc d. 10 * acc + digit_val d) 0 (str_nat n) = n"
  by (induction n rule: str_nat.induct)
     (subst str_nat.simps, simp add: digit_char_props)

lemma digit_groups_digits: "s \<noteq> [] \<Longrightarrow> \<forall>c\<in>set s. is_digit c \<Longrightarrow> digit_groups s"
  by (induction s rule: digit_groups.induct) auto

lemma parse_nat_str_nat: "parse_nat (str_nat n) = Some n"
proof -
  have a: "\<forall>c\<in>set (str_nat n). is_digit c" by (simp add: str_nat_digits)
  then have f: "filter is_digit (str_nat n) = str_nat n" by simp
  obtain c cs where s: "str_nat n = c # cs" using str_nat_nonempty by (cases "str_nat n") auto
  have "is_digit c" using a s by simp
  moreover have "digit_groups (str_nat n)"
    using a str_nat_nonempty by (rule digit_groups_digits[rotated])
  ultimately show ?thesis
    using f s str_nat_value[of n] by (simp add: parse_nat_def)
qed

lemma strip_id:
  assumes "s \<noteq> []" "\<not> is_space (hd s)" "\<not> is_space (last s)"
  shows "strip s = s"
proof -
  have "dropWhile is_space s = s"
    using assms(2) by (simp add: dropWhile_eq_self_iff)
  moreover have "dropWhile is_space (rev s) = rev s"
    using assms(1,3) by (simp add: dropWhile_eq_self_iff hd_rev)
  ultimately show ?thesis by (simp add: strip_def)
qed

lemma is_digit_not_space: "is_digit c \<Longrightarrow> \<not> is_space c"
  by (auto simp: is_digit_def is_space_def)

lemma is_digit_not_sign: "is_digit c \<Longrightarrow> c \<noteq> CHR ''-'' \<and> c \<noteq> CHR ''+''"
  by (auto simp: is_digit_def)

text \<open>Reading back a printed integer gives the integer.\<close>

lemma py_int_py_str: "py_int (py_str i) = Inr i"
proof (cases "i < 0")
  case True
  let ?s = "str_nat (nat (- i))"
  have "last (CHR ''-'' # ?s) = last ?s" using str_nat_nonempty by simp
  moreover have "is_digit (last ?s)" using str_nat_nonempty str_nat_digits last_in_set by blast
  ultimately have "\<not> is_space (last (CHR ''-'' # ?s))"
    by (simp only: is_digit_not_space not_False_eq_True)
  moreover have "\<not> is_space (CHR ''-'')" by (simp add: is_space_def)
  ultimately have "strip (CHR ''-'' # ?s) = CHR ''-'' # ?s"
    by (intro strip_id) simp_all
  then show ?thesis using True by (simp add: py_int_def py_str_def parse_nat_str_nat)
next
  case False
  let ?s = "str_nat (nat i)"
  obtain c cs where s: "?s = c # cs" using str_nat_nonempty by (cases ?s) auto
  have d: "is_digit c" "is_digit (last ?s)"
    using s str_nat_digits[of c "nat i"] str_nat_nonempty[of "nat i"]
      str_nat_digits[of "last ?s" "nat i"] last_in_set[of ?s]
    by auto
  then have "strip ?s = ?s" using s by (intro strip_id) (auto simp: is_digit_not_space)
  moreover have "parse_nat (c # cs) = Some (nat i)" using parse_nat_str_nat[of "nat i"] s by simp
  ultimately show ?thesis using False s d is_digit_not_sign[of c]
    by (simp add: py_int_def py_str_def)
qed

lemmas py_eval = py_int_def strip_def is_space_def parse_nat_def is_digit_def digit_val_def
  py_str_def py_str_opt_def str_nat.simps digit_char_def truthy_def getitem_def

subsection \<open>Levels, depths and reachability\<close>

lemma those_map_Some: "those (map Some xs) = Some xs"
  by (induction xs) simp_all

lemma find_children_sentinel:
  "find_children src [None] = Inr (filter (\<lambda>a. parent_id a = None) src)"
  by (simp add: find_children_def)

lemma find_children_assets:
  "find_children src (map Some cs) = Inr (filter (\<lambda>a. parent_id a \<in> asset_id ` set cs) src)"
proof -
  have "map Some cs \<noteq> [None]" by (cases cs) auto
  then show ?thesis by (simp add: find_children_def those_map_Some)
qed

lemma levels_0: "levels src 0 = filter (\<lambda>a. parent_id a = None) src"
  by (simp add: levels.simps find_children_sentinel)

lemma levels_Suc:
  "levels src (Suc d) = filter (\<lambda>a. parent_id a \<in> asset_id ` set (levels src d)) src"
  by (simp add: levels.simps find_children_assets)

lemma levels_subset: "a \<in> set (levels src d) \<Longrightarrow> a \<in> set src"
  by (cases d) (simp_all only: levels_0 levels_Suc, auto)

lemma levels_empty_mono: "levels src d = [] \<Longrightarrow> levels src (d + k) = []"
  by (induction k) (simp_all only: add_Suc_right levels_Suc, auto)

lemma has_depth_levels:
  "has_depth src a d \<Longrightarrow> a \<in> set src \<Longrightarrow> a \<in> set (levels src d)"
proof (induction arbitrary: rule: has_depth.induct)
  case (depth_root a)
  then show ?case by (simp only: levels_0) simp
next
  case (depth_child p d i a)
  then have "p \<in> set (levels src d)" by simp
  with depth_child show ?case by (simp only: levels_Suc) force
qed

lemma levels_has_depth:
  assumes ids: "\<forall>a\<in>set src. asset_id a \<noteq> None"
  shows "a \<in> set (levels src d) \<Longrightarrow> has_depth src a d"
proof (induction d arbitrary: a)
  case 0
  then show ?case by (simp only: levels_0) (auto intro: has_depth.intros)
next
  case (Suc d)
  then obtain p where p: "p \<in> set (levels src d)" "parent_id a = asset_id p"
    by (simp only: levels_Suc) auto
  then have "p \<in> set src" by (simp add: levels_subset)
  with ids obtain i where "asset_id p = Some i" by auto
  with p Suc.IH[of p] \<open>p \<in> set src\<close> show ?case by (auto intro: has_depth.intros)
qed

lemma levels_reachable: "a \<in> set (levels src d) \<Longrightarrow> root_reachable src a"
proof (induction d arbitrary: a)
  case 0
  then show ?case by (simp only: levels_0) (auto intro: root_reachable.intros)
next
  case (Suc d)
  then obtain p where p: "p \<in> set (levels src d)" "parent_id a = asset_id p"
    by (simp only: levels_Suc) auto
  then have ps: "p \<in> set src" "root_reachable src p" using Suc.IH by (simp_all add: levels_subset)
  show ?case
  proof (cases "asset_id p")
    case None
    with p show ?thesis by (simp add: reach_root)
  next
    case (Some i)
    with p ps show ?thesis by (auto intro: reach_child)
  qed
qed

lemma reachable_levels:
  "root_reachable src a \<Longrightarrow> a \<in> set src \<Longrightarrow> \<exists>d. a \<in> set (levels src d)"
proof (induction rule: root_reachable.induct)
  case (reach_root a)
  then have "a \<in> set (levels src 0)" by (simp only: levels_0) simp
  then show ?case ..
next
  case (reach_child p i a)
  then obtain d where "p \<in> set (levels src d)" by auto
  with reach_child have "a \<in> set (levels src (Suc d))" by (simp only: levels_Suc) force
  then show ?case ..
qed

text \<open>With distinct internal ids every asset has at most one depth, so depths are bounded.\<close>

lemma has_depth_functional:
  assumes dist: "distinct (map asset_id src)"
  shows "has_depth src a d \<Longrightarrow> has_depth src a d' \<Longrightarrow> d = d'"
proof (induction arbitrary: d' rule: has_depth.induct)
  case (depth_root a)
  from depth_root(2,1) show ?case by (cases rule: has_depth.cases) auto
next
  case (depth_child p d i a)
  from depth_child.prems show ?case
  proof (cases rule: has_depth.cases)
    case depth_root
    with depth_child.hyps show ?thesis by simp
  next
    case (depth_child p' e j)
    with depth_child.hyps have eq: "asset_id p' = asset_id p" by simp
    have "inj_on asset_id (set src)" using dist by (simp add: distinct_map)
    with eq depth_child(2) \<open>p \<in> set src\<close> have "p' = p" by (auto dest: inj_onD)
    with depth_child(1,3) depth_child.IH[of e] show ?thesis by simp
  qed
qed

lemma forest_depth_bounded:
  assumes dist: "distinct (map asset_id src)"
  shows "\<exists>D. \<forall>a\<in>set src. \<forall>d. has_depth src a d \<longrightarrow> d \<le> D"
proof -
  let ?S = "{d. \<exists>a\<in>set src. has_depth src a d}"
  have "?S \<subseteq> (\<lambda>a. THE d. has_depth src a d) ` set src"
  proof
    fix d assume "d \<in> ?S"
    then obtain a where a: "a \<in> set src" "has_depth src a d" by auto
    then have "(THE d. has_depth src a d) = d"
      using has_depth_functional[OF dist] by (intro the_equality) auto
    with a show "d \<in> (\<lambda>a. THE d. has_depth src a d) ` set src" by force
  qed
  then have "finite ?S" by (rule finite_subset) simp
  then have "\<forall>a\<in>set src. \<forall>d. has_depth src a d \<longrightarrow> d \<le> Max ?S"
    by (auto intro!: Max_ge)
  then show ?thesis ..
qed

subsection \<open>Tags, lookup, mapping and batch\<close>

lemma rii_cong: "metadata x = metadata y \<Longrightarrow> replicated_internal_id x = replicated_internal_id y"
  by (simp add: replicated_internal_id_def)

lemma new_metadata_tag:
  "map_of (new_metadata a p t) ''_replicatedInternalId'' = Some (py_str_opt (asset_id a))"
  by (simp add: new_metadata_def AList.update_conv')

lemma py_int_None: "py_int ''None'' = Inl ValueError"
  by (simp add: py_eval)

lemma rii_new_metadata:
  "metadata x = Some (new_metadata a p t) \<Longrightarrow> replicated_internal_id x = asset_id a"
  by (cases "asset_id a")
     (simp_all add: replicated_internal_id_def new_metadata_tag py_str_opt_def py_int_None py_int_py_str)

lemma make_id_object_map_Some:
  "make_id_object_map dst i = Some d \<Longrightarrow> d \<in> set dst \<and> replicated_internal_id d = Some i"
  by (induction dst) (auto split: option.splits if_splits)

lemma existing_mapping_keeps':
  "ids i \<noteq> None \<Longrightarrow> existing_mapping os ids i \<noteq> None"
proof (induction os arbitrary: ids)
  case Nil
  then show ?case by simp
next
  case (Cons x os)
  show ?case
    by (simp only: existing_mapping.simps, rule Cons.IH)
       (use Cons.prems in \<open>simp split: option.splits\<close>)
qed

lemma existing_mapping_keeps:
  "ids i = Some v \<Longrightarrow> \<exists>v'. existing_mapping os ids i = Some v'"
  using existing_mapping_keeps'[of ids i os] by auto

lemma existing_mapping_adds:
  "ob \<in> set os \<Longrightarrow> replicated_internal_id ob = Some i \<Longrightarrow> asset_id ob = Some v \<Longrightarrow>
   \<exists>v'. existing_mapping os ids i = Some v'"
proof (induction os arbitrary: ids)
  case Nil
  then show ?case by simp
next
  case (Cons x os)
  show ?case
  proof (cases "ob = x")
    case True
    with Cons.prems show ?thesis by (simp add: existing_mapping_keeps)
  next
    case False
    with Cons show ?thesis by simp
  qed
qed

lemma existing_mapping_dom:
  "existing_mapping os ids i = Some v \<Longrightarrow>
   ids i = Some v \<or> (\<exists>ob\<in>set os. replicated_internal_id ob = Some i \<and> asset_id ob = Some v)"
proof (induction os arbitrary: ids)
  case Nil
  then show ?case by simp
next
  case (Cons x os)
  from Cons.IH[OF Cons.prems[simplified]] show ?case
    by (auto split: option.splits if_splits)
qed

lemma batch_forward:
  "make_objects_batch cs L ids create update p t k = Inr (C, U, N) \<Longrightarrow> s \<in> set cs \<Longrightarrow>
   (case counterpart L s of
      None \<Rightarrow> \<exists>c\<in>set C. create s ids p t k = Inr c
    | Some d \<Rightarrow> update s d ids p t k \<in> set U \<or> d \<in> set N)"
proof (induction cs arbitrary: C U N)
  case Nil
  then show ?case by simp
next
  case (Cons x cs)
  show ?case
  proof (cases "counterpart L x")
    case None
    with Cons.prems(1) obtain c C' where
      c: "create x ids p t k = Inr c"
         "make_objects_batch cs L ids create update p t k = Inr (C', U, N)" "C = c # C'"
      by (auto split: sum.splits)
    show ?thesis
    proof (cases "s = x")
      case True
      with None c show ?thesis by simp
    next
      case False
      with Cons.prems(2) have "s \<in> set cs" by simp
      from Cons.IH[OF c(2) this] c(3) show ?thesis by (auto split: option.splits)
    qed
  next
    case (Some d)
    with Cons.prems(1) obtain U' N' where
      r: "make_objects_batch cs L ids create update p t k = Inr (C, U', N')"
         "(U = update x d ids p t k # U' \<and> N = N') \<or> (U = U' \<and> N = d # N')"
      by (auto split: sum.splits if_splits)
    show ?thesis
    proof (cases "s = x")
      case True
      with Some r show ?thesis by auto
    next
      case False
      with Cons.prems(2) have "s \<in> set cs" by simp
      from Cons.IH[OF r(1) this] r(2) show ?thesis by (auto split: option.splits)
    qed
  qed
qed

lemma batch_backward:
  "make_objects_batch cs L ids create update p t k = Inr (C, U, N) \<Longrightarrow>
   (\<forall>c\<in>set C. \<exists>s\<in>set cs. counterpart L s = None \<and> create s ids p t k = Inr c) \<and>
   (\<forall>u\<in>set U. \<exists>s\<in>set cs. \<exists>d. counterpart L s = Some d \<and> u = update s d ids p t k) \<and>
   (\<forall>n\<in>set N. \<exists>s\<in>set cs. counterpart L s = Some n)"
proof (induction cs arbitrary: C U N)
  case Nil
  then show ?case by simp
next
  case (Cons x cs)
  show ?case
  proof (cases "counterpart L x")
    case None
    with Cons.prems(1) obtain c C' where
      c: "create x ids p t k = Inr c"
         "make_objects_batch cs L ids create update p t k = Inr (C', U, N)" "C = c # C'"
      by (auto split: sum.splits)
    from Cons.IH[OF c(2)] c(1,3) None show ?thesis by auto
  next
    case (Some d)
    with Cons.prems(1) obtain U' N' where
      r: "make_objects_batch cs L ids create update p t k = Inr (C, U', N')"
         "(U = update x d ids p t k # U' \<and> N = N') \<or> (U = U' \<and> N = d # N')"
      by (auto split: sum.splits if_splits)
    from Cons.IH[OF r(1)] have
      ih: "\<forall>c\<in>set C. \<exists>s\<in>set cs. counterpart L s = None \<and> create s ids p t k = Inr c"
          "\<forall>u\<in>set U'. \<exists>s\<in>set cs. \<exists>d. counterpart L s = Some d \<and> u = update s d ids p t k"
          "\<forall>n\<in>set N'. \<exists>s\<in>set cs. counterpart L s = Some n"
      by blast+
    have 1: "\<forall>c\<in>set C. \<exists>s\<in>set (x # cs). counterpart L s = None \<and> create s ids p t k = Inr c"
      using ih(1) by fastforce
    have 2: "\<forall>u\<in>set U. \<exists>s\<in>set (x # cs). \<exists>d. counterpart L s = Some d \<and> u = update s d ids p t k"
      using ih(2) r(2) Some by fastforce
    have 3: "\<forall>n\<in>set N. \<exists>s\<in>set (x # cs). counterpart L s = Some n"
      using ih(3) r(2) Some by fastforce
    from 1 2 3 show ?thesis by blast
  qed
qed

lemma batch_total:
  "\<forall>s\<in>set cs. counterpart L s = None \<longrightarrow> (\<exists>c. create s ids p t k = Inr c) \<Longrightarrow>
   \<exists>C U N. make_objects_batch cs L ids create update p t k = Inr (C, U, N)"
proof (induction cs)
  case Nil
  then show ?case by simp
next
  case (Cons x cs)
  then obtain C U N where "make_objects_batch cs L ids create update p t k = Inr (C, U, N)"
    by auto
  with Cons.prems show ?case by (cases "counterpart L x") auto
qed

subsection \<open>One pass of the loop\<close>

lemma list_all2_right: "list_all2 P ys xs \<Longrightarrow> x \<in> set xs \<Longrightarrow> \<exists>y\<in>set ys. P y x"
  by (induction rule: list_all2_induct) auto

lemma list_all2_left: "list_all2 P ys xs \<Longrightarrow> y \<in> set ys \<Longrightarrow> \<exists>x\<in>set xs. P y x"
  by (induction rule: list_all2_induct) auto

lemma build_asset_create_metadata:
  "build_asset_create s ids p t k = Inr c \<Longrightarrow> metadata c = Some (new_metadata s p t)"
  by (auto simp: build_asset_create_def Let_def split: if_splits option.splits)

lemma build_asset_update_fields:
  "metadata (build_asset_update s d ids p t k) = Some (new_metadata s p t)"
  "asset_id (build_asset_update s d ids p t k) = asset_id d"
  by (simp_all add: build_asset_update_def)

lemma faithful_create:
  assumes "faithful client" "assets_create client st xs = Inr (ys, st')"
  shows "list_all2 (\<lambda>y x. metadata y = metadata x \<and> asset_id y \<noteq> None) ys xs"
proof -
  from assms(1) obtain ys0 st0 where "assets_create client st xs = Inr (ys0, st0)"
    "list_all2 (\<lambda>y x. metadata y = metadata x \<and> asset_id y \<noteq> None) ys0 xs"
    unfolding faithful_def by blast
  with assms(2) show ?thesis by simp
qed

lemma faithful_update:
  assumes "faithful client" "assets_update client st xs = Inr (ys, st')"
  shows "list_all2 (\<lambda>y x. metadata y = metadata x \<and> asset_id y = asset_id x) ys xs"
proof -
  from assms(1) obtain ys0 st0 where "assets_update client st xs = Inr (ys0, st0)"
    "list_all2 (\<lambda>y x. metadata y = metadata x \<and> asset_id y = asset_id x) ys0 xs"
    unfolding faithful_def by blast
  with assms(2) show ?thesis by simp
qed

lemma hierarchy_step_Inr:
  assumes "hierarchy_step client src L p t (k, cs, ids, st) = Inr s'"
  obtains C U N created updated st1 st2 where
    "make_objects_batch cs L ids build_asset_create build_asset_update p t k = Inr (C, U, N)"
    "assets_create client st C = Inr (created, st1)"
    "assets_update client st1 U = Inr (updated, st2)"
    "s' = (k + 1, filter (\<lambda>a. parent_id a \<in> asset_id ` set cs) src,
           existing_mapping (created @ updated @ N) ids, st2)"
proof -
  from assms obtain C U N where
    b: "make_objects_batch cs L ids build_asset_create build_asset_update p t k = Inr (C, U, N)"
    by (cases "make_objects_batch cs L ids build_asset_create build_asset_update p t k")
       (auto simp: hierarchy_step_def)
  from assms b obtain created st1 where c: "assets_create client st C = Inr (created, st1)"
    by (cases "assets_create client st C") (auto simp: hierarchy_step_def retry_def)
  from assms b c obtain updated st2 where u: "assets_update client st1 U = Inr (updated, st2)"
    by (cases "assets_update client st1 U") (auto simp: hierarchy_step_def retry_def)
  from assms b c u have
    "s' = (k + 1, filter (\<lambda>a. parent_id a \<in> asset_id ` set cs) src,
           existing_mapping (created @ updated @ N) ids, st2)"
    by (simp add: hierarchy_step_def retry_def find_children_assets)
  with b c u show ?thesis by (rule that)
qed

lemma step_maps_children:
  assumes step: "hierarchy_step client src (make_id_object_map dst) p t (k, cs, ids, st) = Inr (k', cs', ids', st')"
    and f: "faithful client"
    and dst: "\<forall>d\<in>set dst. asset_id d \<noteq> None"
    and s: "s \<in> set cs" "asset_id s = Some i"
  shows "\<exists>v. ids' i = Some v"
proof -
  let ?L = "make_id_object_map dst"
  from step obtain C U N created updated st1 st2 where
    b: "make_objects_batch cs ?L ids build_asset_create build_asset_update p t k = Inr (C, U, N)"
    and c: "assets_create client st C = Inr (created, st1)"
    and u: "assets_update client st1 U = Inr (updated, st2)"
    and e: "ids' = existing_mapping (created @ updated @ N) ids"
    by (rule hierarchy_step_Inr) simp
  note cr = faithful_create[OF f c] and up = faithful_update[OF f u]
  have "\<exists>ob\<in>set (created @ updated @ N). replicated_internal_id ob = Some i \<and> asset_id ob \<noteq> None"
  proof (cases "counterpart ?L s")
    case None
    with batch_forward[OF b s(1)] obtain x where x: "x \<in> set C" "build_asset_create s ids p t k = Inr x"
      by auto
    from list_all2_right[OF cr x(1)] obtain y where
      y: "y \<in> set created" "metadata y = metadata x" "asset_id y \<noteq> None" by auto
    from x(2) y(2) have "replicated_internal_id y = asset_id s"
      by (simp add: build_asset_create_metadata rii_new_metadata)
    with y s show ?thesis by auto
  next
    case (Some d)
    with s have Ld: "?L i = Some d" by (simp add: counterpart_def)
    then have d: "replicated_internal_id d = Some i" "d \<in> set dst"
      using make_id_object_map_Some by auto
    with dst have did: "asset_id d \<noteq> None" by auto
    from batch_forward[OF b s(1)] Some
    consider "build_asset_update s d ids p t k \<in> set U" | "d \<in> set N" by auto
    then show ?thesis
    proof cases
      case 1
      from list_all2_right[OF up 1] obtain y where
        y: "y \<in> set updated" "metadata y = Some (new_metadata s p t)" "asset_id y = asset_id d"
        by (auto simp: build_asset_update_fields)
      then have "replicated_internal_id y = asset_id s" by (simp add: rii_new_metadata)
      with y s did show ?thesis by auto
    next
      case 2
      with d did show ?thesis by auto
    qed
  qed
  then obtain ob v where "ob \<in> set (created @ updated @ N)" "replicated_internal_id ob = Some i"
    "asset_id ob = Some v" by auto
  from existing_mapping_adds[OF this] e show ?thesis by simp
qed

lemma step_dom:
  assumes step: "hierarchy_step client src (make_id_object_map dst) p t (k, cs, ids, st) = Inr (k', cs', ids', st')"
    and f: "faithful client"
    and i: "ids' i = Some v"
  shows "ids i = Some v \<or> (\<exists>s\<in>set cs. asset_id s = Some i)"
proof -
  let ?L = "make_id_object_map dst"
  from step obtain C U N created updated st1 st2 where
    b: "make_objects_batch cs ?L ids build_asset_create build_asset_update p t k = Inr (C, U, N)"
    and c: "assets_create client st C = Inr (created, st1)"
    and u: "assets_update client st1 U = Inr (updated, st2)"
    and e: "ids' = existing_mapping (created @ updated @ N) ids"
    by (rule hierarchy_step_Inr) simp
  note cr = faithful_create[OF f c] and up = faithful_update[OF f u]
  note bb = batch_backward[OF b]
  from i e existing_mapping_dom[of "created @ updated @ N" ids i v]
  consider "ids i = Some v"
    | ob where "ob \<in> set created" "replicated_internal_id ob = Some i"
    | ob where "ob \<in> set updated" "replicated_internal_id ob = Some i"
    | ob where "ob \<in> set N" "replicated_internal_id ob = Some i"
    by auto
  then show ?thesis
  proof cases
    case 1
    then show ?thesis by simp
  next
    case 2
    from list_all2_left[OF cr 2(1)] obtain x where x: "x \<in> set C" "metadata ob = metadata x" by auto
    with bb obtain s where s: "s \<in> set cs" "build_asset_create s ids p t k = Inr x" by blast
    from s(2) x(2) have "replicated_internal_id ob = asset_id s"
      by (simp add: build_asset_create_metadata rii_new_metadata)
    with 2 s show ?thesis by auto
  next
    case 3
    from list_all2_left[OF up 3(1)] obtain x where x: "x \<in> set U" "metadata ob = metadata x" by auto
    with bb obtain s d where s: "s \<in> set cs" "x = build_asset_update s d ids p t k" by blast
    from s(2) x(2) have "replicated_internal_id ob = asset_id s"
      by (simp add: build_asset_update_fields rii_new_metadata)
    with 3 s show ?thesis by auto
  next
    case 4
    with bb obtain s where s: "s \<in> set cs" "counterpart ?L s = Some ob" by blast
    then obtain j where j: "asset_id s = Some j" "?L j = Some ob"
      by (auto simp: counterpart_def split: option.splits)
    with make_id_object_map_Some[OF j(2)] 4 have "j = i" by simp
    with j s show ?thesis by auto
  qed
qed

subsection \<open>Runs of the loop\<close>

lemma step_shape:
  assumes "hierarchy_step client src L p t (k, cs, ids, st) = Inr s'"
  shows "\<exists>ids' st'. s' = (k + 1, filter (\<lambda>a. parent_id a \<in> asset_id ` set cs) src, ids', st')"
  using assms by (rule hierarchy_step_Inr) simp

lemma walk_levels:
  "walk client src dst p t st s \<Longrightarrow> \<exists>d. fst s = int d \<and> fst (snd s) = levels src d"
proof (induction rule: walk.induct)
  case (walk_start children)
  then have "children = levels src 0" by (simp add: levels_0 find_children_sentinel)
  then show ?case by (intro exI[of _ 0]) simp
next
  case (walk_next s s')
  obtain k cs ids stt where s: "s = (k, cs, ids, stt)" by (cases s)
  with walk_next.IH obtain d where d: "k = int d" "cs = levels src d" by auto
  from step_shape[OF walk_next.hyps(3)[unfolded s]] obtain ids' st' where
    "s' = (k + 1, filter (\<lambda>a. parent_id a \<in> asset_id ` set cs) src, ids', st')" by blast
  with d have "fst s' = int (Suc d) \<and> fst (snd s') = levels src (Suc d)"
    by (simp add: levels_Suc)
  then show ?case ..
qed

lemma walk_parent_mapped:
  assumes w: "walk client src dst p t st s"
    and f: "faithful client"
    and src: "\<forall>a\<in>set src. asset_id a \<noteq> None"
    and dst: "\<forall>d\<in>set dst. asset_id d \<noteq> None"
    and pos: "0 < fst s" and a: "a \<in> set (fst (snd s))"
  shows "\<exists>i v. parent_id a = Some i \<and> fst (snd (snd s)) i = Some v"
  using w
proof (cases rule: walk.cases)
  case (walk_start children)
  with pos show ?thesis by simp
next
  case (walk_next s0)
  obtain k cs ids stt where s0: "s0 = (k, cs, ids, stt)" by (cases s0)
  obtain k' cs' ids' st' where s: "s = (k', cs', ids', st')" by (cases s)
  from walk_levels[OF walk_next(1)] s0 obtain d where d: "cs = levels src d" by auto
  note step = walk_next(3)[unfolded s0 s]
  from step_shape[OF step] have "cs' = filter (\<lambda>a. parent_id a \<in> asset_id ` set cs) src" by simp
  with a s obtain q where q: "q \<in> set cs" "parent_id a = asset_id q" by auto
  with d have "q \<in> set src" by (simp add: levels_subset)
  with src obtain i where i: "asset_id q = Some i" by auto
  from step_maps_children[OF step f dst q(1) i] q i s show ?thesis by simp
qed

lemma walk_dom:
  assumes f: "faithful client"
  shows "walk client src dst p t st s \<Longrightarrow> fst (snd (snd s)) i = Some v \<Longrightarrow>
         \<exists>a\<in>set src. root_reachable src a \<and> asset_id a = Some i"
proof (induction rule: walk.induct)
  case (walk_start children)
  then show ?case by simp
next
  case (walk_next s0 s)
  obtain k cs ids stt where s0: "s0 = (k, cs, ids, stt)" by (cases s0)
  obtain k' cs' ids' st' where s: "s = (k', cs', ids', st')" by (cases s)
  from walk_levels[OF walk_next(1)] s0 obtain d where d: "cs = levels src d" by auto
  note step = walk_next(3)[unfolded s0 s]
  from walk_next.prems s have "ids' i = Some v" by simp
  from step_dom[OF step f this] show ?case
  proof
    assume "ids i = Some v"
    with walk_next.IH s0 show ?thesis by simp
  next
    assume "\<exists>s\<in>set cs. asset_id s = Some i"
    then obtain q where "q \<in> set cs" "asset_id q = Some i" by auto
    with d show ?thesis using levels_subset levels_reachable by blast
  qed
qed

lemma loop_exit:
  "hierarchy_loop client src L p t (k, [], ids, st) = Some (Inr (ids, st))"
  by (subst hierarchy_loop.simps) simp

lemma loop_error:
  "cs \<noteq> [] \<Longrightarrow> hierarchy_step client src L p t (k, cs, ids, st) = Inl e \<Longrightarrow>
   hierarchy_loop client src L p t (k, cs, ids, st) = Some (Inl e)"
  by (subst hierarchy_loop.simps) simp

lemma loop_next:
  "cs \<noteq> [] \<Longrightarrow> hierarchy_step client src L p t (k, cs, ids, st) = Inr s' \<Longrightarrow>
   hierarchy_loop client src L p t (k, cs, ids, st) = hierarchy_loop client src L p t s'"
  by (subst hierarchy_loop.simps) simp

lemma loop_terminates:
  "levels src n = [] \<Longrightarrow> d \<le> n \<Longrightarrow>
   \<exists>r. hierarchy_loop client src L p t (int d, levels src d, ids, st) = Some r"
proof (induction "n - d" arbitrary: d ids st)
  case 0
  then show ?case by (simp add: loop_exit)
next
  case (Suc m)
  show ?case
  proof (cases "levels src d = []")
    case True
    then show ?thesis by (simp add: loop_exit)
  next
    case False
    show ?thesis
    proof (cases "hierarchy_step client src L p t (int d, levels src d, ids, st)")
      case (Inl e)
      with False show ?thesis by (simp add: loop_error)
    next
      case (Inr s')
      from step_shape[OF Inr] obtain ids' st' where
        "s' = (int (Suc d), levels src (Suc d), ids', st')" by (auto simp: levels_Suc)
      moreover from Suc have "m = n - Suc d" "Suc d \<le> n" by auto
      ultimately show ?thesis
        using Suc.hyps(1)[of "Suc d" ids' st'] Suc.prems(1) loop_next[OF False Inr] by simp
    qed
  qed
qed

lemma step_total:
  assumes f: "faithful client"
    and inv: "0 < k \<longrightarrow> (\<forall>a\<in>set cs. \<exists>i v. parent_id a = Some i \<and> ids i = Some v)"
  shows "\<exists>s'. hierarchy_step client src L p t (k, cs, ids, st) = Inr s'"
proof -
  have "\<forall>s\<in>set cs. counterpart L s = None \<longrightarrow> (\<exists>c. build_asset_create s ids p t k = Inr c)"
    using inv by (auto simp: build_asset_create_def Let_def)
  from batch_total[where create = build_asset_create and update = build_asset_update, OF this]
  obtain C U N where
    b: "make_objects_batch cs L ids build_asset_create build_asset_update p t k = Inr (C, U, N)"
    by blast
  from f obtain created st1 where c: "assets_create client st C = Inr (created, st1)"
    unfolding faithful_def by blast
  from f obtain updated st2 where u: "assets_update client st1 U = Inr (updated, st2)"
    unfolding faithful_def by blast
  from b c u show ?thesis
    by (simp add: hierarchy_step_def retry_def find_children_assets)
qed

lemma loop_returns:
  assumes f: "faithful client"
    and src: "\<forall>a\<in>set src. asset_id a \<noteq> None"
    and dst: "\<forall>d\<in>set dst. asset_id d \<noteq> None"
    and n: "levels src n = []"
  shows "d \<le> n \<Longrightarrow>
    (0 < d \<longrightarrow> (\<forall>a\<in>set (levels src d). \<exists>i v. parent_id a = Some i \<and> ids i = Some v)) \<Longrightarrow>
    \<exists>m st'. hierarchy_loop client src (make_id_object_map dst) p t (int d, levels src d, ids, st)
      = Some (Inr (m, st'))"
proof (induction "n - d" arbitrary: d ids st)
  case 0
  with n show ?case by (simp add: loop_exit)
next
  case (Suc m)
  let ?L = "make_id_object_map dst"
  show ?case
  proof (cases "levels src d = []")
    case True
    then show ?thesis by (simp add: loop_exit)
  next
    case False
    from Suc.prems(2) have "0 < int d \<longrightarrow> (\<forall>a\<in>set (levels src d). \<exists>i v. parent_id a = Some i \<and> ids i = Some v)"
      by simp
    from step_total[OF f this] obtain s' where
      step: "hierarchy_step client src ?L p t (int d, levels src d, ids, st) = Inr s'" by blast
    from step_shape[OF step] obtain ids' st' where
      s': "s' = (int (Suc d), levels src (Suc d), ids', st')" by (auto simp: levels_Suc)
    have "\<forall>a\<in>set (levels src (Suc d)). \<exists>i v. parent_id a = Some i \<and> ids' i = Some v"
    proof
      fix a assume "a \<in> set (levels src (Suc d))"
      then obtain q where q: "q \<in> set (levels src d)" "parent_id a = asset_id q"
        by (auto simp: levels_Suc)
      then have "q \<in> set src" by (simp add: levels_subset)
      with src obtain i where i: "asset_id q = Some i" by auto
      from step_maps_children[OF step[unfolded s'] f dst q(1) i] q i
      show "\<exists>i v. parent_id a = Some i \<and> ids' i = Some v" by simp
    qed
    moreover from Suc have "m = n - Suc d" "Suc d \<le> n" by auto
    ultimately show ?thesis
      using Suc.hyps(1)[of "Suc d" ids' st'] loop_next[OF False step] s' by simp
  qed
qed

lemma list_all2_assign_ids:
  "list_all2 (\<lambda>y x. metadata y = metadata x \<and> asset_id y \<noteq> None) (assign_ids n xs) xs"
  by (simp add: assign_ids_def list_all2_conv_all_nth nth_enumerate_eq)

lemma faithful_memory_client: "faithful memory_client"
  unfolding faithful_def
proof (intro conjI allI)
  fix st xs
  show "\<exists>ys st'. assets_create memory_client st xs = Inr (ys, st') \<and>
          list_all2 (\<lambda>y x. metadata y = metadata x \<and> asset_id y \<noteq> None) ys xs"
    using list_all2_assign_ids[of "next_id st" xs]
    by (simp only: memory_client_def store_create_def Let_def client.simps) blast
  show "\<exists>ys st'. assets_update memory_client st xs = Inr (ys, st') \<and>
          list_all2 (\<lambda>y x. metadata y = metadata x \<and> asset_id y = asset_id x) ys xs"
    by (simp add: memory_client_def store_update_def list_all2_same)
qed

lemma loop_invariant:
  assumes l: "hierarchy_loop client src L p t s = Some (Inr (m, st'))"
    and Is: "I s"
    and pres: "\<And>s s'. I s \<Longrightarrow> fst (snd s) \<noteq> [] \<Longrightarrow>
                hierarchy_step client src L p t s = Inr s' \<Longrightarrow> I s'"
  shows "\<exists>k. I (k, [], m, st')"
proof -
  define Q where "Q \<equiv> \<lambda>c sr lk pp tt s0 r0.
    (c = client \<and> sr = src \<and> lk = L \<and> pp = p \<and> tt = t) \<longrightarrow> I s0 \<longrightarrow>
    r0 = (Inr (m, st') :: error + id_mapping \<times> 'a) \<longrightarrow> (\<exists>k. I (k, [], m, st'))"
  have "Q client src L p t s (Inr (m, st'))"
  proof (rule hierarchy_loop.raw_induct[where P = Q, OF _ l])
    fix hl c sr lk pp tt s0 r0
    assume IH: "\<And>a b c' d e f y. hl a b c' d e f = Some y \<Longrightarrow> Q a b c' d e f y"
      and eqn: "(if fst (snd s0) = [] then Some (Inr (fst (snd (snd s0)), snd (snd (snd s0))))
                 else case hierarchy_step c sr lk pp tt s0 of
                        Inl e \<Rightarrow> Some (Inl e)
                      | Inr s' \<Rightarrow> hl c sr lk pp tt s') = Some r0"
    show "Q c sr lk pp tt s0 r0"
      unfolding Q_def
    proof (intro impI)
      assume par: "c = client \<and> sr = src \<and> lk = L \<and> pp = p \<and> tt = t"
        and I0: "I s0" and r0: "r0 = Inr (m, st')"
      show "\<exists>k. I (k, [], m, st')"
      proof (cases "fst (snd s0) = []")
        case True
        with eqn r0 have "s0 = (fst s0, [], m, st')" by (cases s0) auto
        with I0 show ?thesis by metis
      next
        case False
        show ?thesis
        proof (cases "hierarchy_step c sr lk pp tt s0")
          case (Inl e)
          with False eqn r0 show ?thesis by simp
        next
          case (Inr s1)
          with False eqn have "hl c sr lk pp tt s1 = Some r0" by simp
          from IH[OF this] have "Q c sr lk pp tt s1 r0" .
          moreover have "I s1" using pres[OF I0 False] Inr par by simp
          ultimately show ?thesis using par r0 unfolding Q_def by blast
        qed
      qed
    qed
  qed
  with Is show ?thesis unfolding Q_def by blast
qed

lemma walk_prefix:
  "walk client src dst p t st s \<Longrightarrow> d \<le> nat (fst s) \<Longrightarrow>
   \<exists>s0. walk client src dst p t st s0 \<and> fst s0 = int d"
proof (induction rule: walk.induct)
  case (walk_start children)
  then have "walk client src dst p t st (0, children, Map.empty, st)" "d = 0"
    by (auto intro: walk.walk_start)
  then show ?case by force
next
  case (walk_next s0 s)
  obtain k cs ids stt where s0: "s0 = (k, cs, ids, stt)" by (cases s0)
  from walk_levels[OF walk_next(1)] s0 obtain e where e: "k = int e" by auto
  from step_shape[OF walk_next(3)[unfolded s0]] e have k: "fst s = int (Suc e)" by auto
  have w: "walk client src dst p t st s" using walk_next(1,2,3) by (rule walk.walk_next)
  show ?case
  proof (cases "d = Suc e")
    case True
    with k have "fst s = int d" by simp
    with w show ?thesis by blast
  next
    case False
    with walk_next.prems k have "d \<le> nat (fst s0)" using s0 e by simp
    with walk_next.IH show ?thesis by simp
  qed
qed

lemma create_hierarchy_final_walk:
  assumes "create_hierarchy src dst p t client st = Some (Inr (ids, st'))"
  shows "\<exists>k. walk client src dst p t st (k, [], ids, st')"
proof -
  let ?s = "(0, filter (\<lambda>a. parent_id a = None) src, Map.empty, st)"
  from assms have l: "hierarchy_loop client src (make_id_object_map dst) p t ?s = Some (Inr (ids, st'))"
    by (simp add: create_hierarchy_def find_children_sentinel)
  have "walk client src dst p t st ?s"
    by (rule walk_start) (simp add: find_children_sentinel)
  then show ?thesis
  proof (rule loop_invariant[OF l, where I = "walk client src dst p t st"])
    fix s s'
    assume "walk client src dst p t st s" "fst (snd s) \<noteq> []"
      "hierarchy_step client src (make_id_object_map dst) p t s = Inr s'"
    then show "walk client src dst p t st s'" by (rule walk_next)
  qed
qed

lemma create_hierarchy_processes_reachable:
  assumes r: "create_hierarchy src dst p t client st = Some (Inr (ids, st'))"
    and a: "a \<in> set src" "root_reachable src a"
  shows "\<exists>s. walk client src dst p t st s \<and> a \<in> set (fst (snd s))"
proof -
  from create_hierarchy_final_walk[OF r] obtain k where
    w: "walk client src dst p t st (k, [], ids, st')" by blast
  from walk_levels[OF w] obtain n where n: "k = int n" "levels src n = []" by auto
  from reachable_levels[OF a(2,1)] obtain d where d: "a \<in> set (levels src d)" by blast
  have "d \<le> n"
  proof (rule ccontr)
    assume "\<not> d \<le> n"
    then have "d = n + (d - n)" by simp
    with levels_empty_mono[OF n(2), of "d - n"] d show False by simp
  qed
  with walk_prefix[OF w, of d] n obtain s0 where
    s0: "walk client src dst p t st s0" "fst s0 = int d" by auto
  from walk_levels[OF s0(1)] s0(2) have "fst (snd s0) = levels src d" by auto
  with d have "a \<in> set (fst (snd s0))" by simp
  with s0(1) show ?thesis by blast
qed

lemma walk_depth_bound:
  assumes n: "levels src n = []" and w: "walk client src dst p t st s"
  shows "fst s \<le> int n"
  using w
proof (cases rule: walk.cases)
  case (walk_start children)
  then show ?thesis by simp
next
  case (walk_next s0)
  obtain k cs ids stt where s0: "s0 = (k, cs, ids, stt)" by (cases s0)
  from walk_levels[OF walk_next(1)] s0 obtain e where e: "k = int e" "cs = levels src e" by auto
  have "e < n"
  proof (rule ccontr)
    assume "\<not> e < n"
    then have "e = n + (e - n)" by simp
    with levels_empty_mono[OF n, of "e - n"] e walk_next(2) s0 show False by simp
  qed
  with step_shape[OF walk_next(3)[unfolded s0]] e show ?thesis by auto
qed

lemma depth_bound_levels:
  assumes src: "\<forall>a\<in>set src. asset_id a \<noteq> None"
    and D: "\<forall>a\<in>set src. \<forall>d. has_depth src a d \<longrightarrow> d \<le> D"
  shows "levels src (Suc D) = []"
proof (rule ccontr)
  assume "levels src (Suc D) \<noteq> []"
  then obtain a where a: "a \<in> set (levels src (Suc D))" by (cases "levels src (Suc D)") auto
  then have "a \<in> set src" "has_depth src a (Suc D)"
    using levels_subset levels_has_depth[OF src] by blast+
  with D have "Suc D \<le> D" by blast
  then show False by simp
qed

lemma levels_bound_depth:
  assumes n: "levels src n = []" and a: "a \<in> set src" "has_depth src a d"
  shows "d < n"
proof (rule ccontr)
  assume "\<not> d < n"
  then have "d = n + (d - n)" by simp
  with levels_empty_mono[OF n, of "d - n"] has_depth_levels[OF a(2,1)] show False by simp
qed

subsection \<open>Evaluating runs on the in-memory store\<close>

lemma loop_Cons:
  "hierarchy_loop client src L p t (k, c # cs, ids, st) =
     (case hierarchy_step client src L p t (k, c # cs, ids, st) of
        Inl e \<Rightarrow> Some (Inl e)
      | Inr s' \<Rightarrow> hierarchy_loop client src L p t s')"
  by (subst hierarchy_loop.simps) simp

lemmas run_eval = create_hierarchy_def hierarchy_step_def retry_def find_children_def
  memory_client_def store_create_def store_update_def store_delete_def assign_ids_def
  build_asset_create_def build_asset_update_def new_metadata_def counterpart_def
  replicated_internal_id_def fields_differ_def own_metadata_def dict_eq_def
  replication_keys_def loop_Cons loop_exit Let_def enumerate_eq_zip


subsection \<open>What the sweeps select when they complete\<close>

text \<open>
  When its loop raises nothing, sweep A returns the ids of the assets whose tag reads
  as the internal id of a source asset, and sweep B the ids of the assets whose
  metadata is empty or absent or whose \<open>_replicatedSource\<close> is the empty string.
\<close>

lemma py_int_empty: "py_int [] = Inl ValueError"
  by (simp add: py_int_def strip_def)

lemma replicated_ids_in_src_selects:
  "replicated_ids_in_src ids listing acc = Inr r \<Longrightarrow>
   r = acc @ map asset_id
         (filter (\<lambda>a. \<exists>i. replicated_internal_id a = Some i \<and> Some i \<in> set ids) listing)"
proof (induction listing arbitrary: acc)
  case Nil
  then show ?case by simp
next
  case (Cons a listing)
  let ?sel = "\<lambda>a. \<exists>i. replicated_internal_id a = Some i \<and> Some i \<in> set ids"
  have skip: ?case
    if "\<not> ?sel a" "replicated_ids_in_src ids listing acc = Inr r"
    using Cons.IH[OF that(2)] that(1) by simp
  have take: ?case
    if "?sel a" "replicated_ids_in_src ids listing (acc @ [asset_id a]) = Inr r"
    using Cons.IH[OF that(2)] that(1) by simp
  show ?case
  proof (cases "truthy (metadata a)")
    case False
    then have "replicated_internal_id a = None"
      by (auto simp: truthy_def replicated_internal_id_def split: option.splits)
    with False Cons.prems show ?thesis by (intro skip) simp_all
  next
    case True
    then obtain d where d: "metadata a = Some d" "d \<noteq> []"
      by (auto simp: truthy_def split: option.splits)
    with True Cons.prems obtain v where v: "map_of d ''_replicatedInternalId'' = Some v"
      by (auto simp: getitem_def split: option.splits)
    show ?thesis
    proof (cases "v = []")
      case True
      with d v have "replicated_internal_id a = None"
        by (simp add: replicated_internal_id_def py_int_empty)
      with True d v Cons.prems \<open>truthy (metadata a)\<close> show ?thesis
        by (intro skip) (simp_all add: getitem_def)
    next
      case False
      with d v Cons.prems \<open>truthy (metadata a)\<close> obtain i where i: "py_int v = Inr i"
        by (auto simp: getitem_def split: sum.splits)
      with d v have r: "replicated_internal_id a = Some i" by (simp add: replicated_internal_id_def)
      show ?thesis
      proof (cases "Some i \<in> set ids")
        case True
        with False d v i r Cons.prems \<open>truthy (metadata a)\<close> show ?thesis
          by (intro take) (simp_all add: getitem_def)
      next
        case no: False
        with False d v i r Cons.prems \<open>truthy (metadata a)\<close> show ?thesis
          by (intro skip) (simp_all add: getitem_def)
      qed
    qed
  qed
qed

lemma not_replicated_ids_selects:
  "not_replicated_ids listing acc = Inr r \<Longrightarrow>
   r = acc @ map asset_id
         (filter (\<lambda>a. \<not> truthy (metadata a) \<or>
                      getitem (metadata a) ''_replicatedSource'' = Inr []) listing)"
proof (induction listing arbitrary: acc)
  case Nil
  then show ?case by simp
next
  case (Cons a listing)
  let ?sel = "\<lambda>a. \<not> truthy (metadata a) \<or> getitem (metadata a) ''_replicatedSource'' = Inr []"
  have skip: ?case
    if "\<not> ?sel a" "not_replicated_ids listing acc = Inr r"
    using Cons.IH[OF that(2)] that(1) by simp
  have take: ?case
    if "?sel a" "not_replicated_ids listing (acc @ [asset_id a]) = Inr r"
    using Cons.IH[OF that(2)] that(1) by simp
  show ?case
  proof (cases "truthy (metadata a)")
    case False
    with Cons.prems show ?thesis by (intro take) simp_all
  next
    case True
    with Cons.prems obtain v where v: "getitem (metadata a) ''_replicatedSource'' = Inr v"
      by (auto split: sum.splits)
    show ?thesis
    proof (cases "v = []")
      case e: True
      with True v Cons.prems show ?thesis by (intro take) simp_all
    next
      case False
      with True v Cons.prems show ?thesis by (intro skip) simp_all
    qed
  qed
qed

text \<open>
  With both sweeps disabled, the second run on the one-root source creates nothing
  and leaves the destination as the first run left it.
\<close>

lemma replicate_twice_default_flags_example:
  "replicate ''src'' memory_client \<lparr>store_assets = [root1], next_id = 2\<rparr>
     memory_client \<lparr>store_assets = [], next_id = 100\<rparr> 5 False False
     = Some (Inr \<lparr>store_assets =
          [\<lparr>asset_id = Some 100, external_id = Some ''root'', name = Some ''Root'',
            parent_id = None, description = None,
            metadata = Some [(''_replicatedSource'', ''src''), (''_replicatedInternalId'', ''1''),
                             (''_replicatedTime'', ''5000'')],
            source = None\<rparr>], next_id = 101\<rparr>) \<and>
   replicate ''src'' memory_client \<lparr>store_assets = [root1], next_id = 2\<rparr>
     memory_client \<lparr>store_assets =
          [\<lparr>asset_id = Some 100, external_id = Some ''root'', name = Some ''Root'',
            parent_id = None, description = None,
            metadata = Some [(''_replicatedSource'', ''src''), (''_replicatedInternalId'', ''1''),
                             (''_replicatedTime'', ''5000'')],
            source = None\<rparr>], next_id = 101\<rparr> 6 False False
     = Some (Inr \<lparr>store_assets =
          [\<lparr>asset_id = Some 100, external_id = Some ''root'', name = Some ''Root'',
            parent_id = None, description = None,
            metadata = Some [(''_replicatedSource'', ''src''), (''_replicatedInternalId'', ''1''),
                             (''_replicatedTime'', ''5000'')],
            source = None\<rparr>], next_id = 101\<rparr>)"
  by (simp add: replicate_def run_eval root1_def py_eval)

subsection \<open>Update payload\<close>

text \<open>
  Claim C8. The update payload takes external id, name, description and source from
  the source asset and its metadata from the tagger; the parent reference, the
  internal id and every other field of the destination asset stay as they were.
\<close>

theorem build_asset_update_frame:
  "external_id (build_asset_update s d m p t k) = external_id s \<and>
   name (build_asset_update s d m p t k) = name s \<and>
   description (build_asset_update s d m p t k) = description s \<and>
   source (build_asset_update s d m p t k) = source s \<and>
   metadata (build_asset_update s d m p t k) = Some (new_metadata s p t) \<and>
   parent_id (build_asset_update s d m p t k) = parent_id d \<and>
   asset_id (build_asset_update s d m p t k) = asset_id d \<and>
   asset.more (build_asset_update s d m p t k) = asset.more d"
  by (simp add: build_asset_update_def)

subsection \<open>Create payload\<close>

text \<open>
  Claim C3. The create payload copies external id, name, description and source
  from the source asset, carries the tagger's metadata, has no parent at depth 0 and
  the mapping's value for the source parent id at a depth above 0; the assets
  selected at depth 0 are exactly the source assets without a parent id.
\<close>

theorem build_asset_create_payload:
  "(depth \<le> 0 \<longrightarrow>
      build_asset_create a m p t depth =
        Inr \<lparr>asset_id = None, external_id = external_id a, name = name a, parent_id = None,
             description = description a, metadata = Some (new_metadata a p t),
             source = source a\<rparr>) \<and>
   (0 < depth \<and> parent_id a = Some i \<and> m i = Some v \<longrightarrow>
      build_asset_create a m p t depth =
        Inr \<lparr>asset_id = None, external_id = external_id a, name = name a, parent_id = Some v,
             description = description a, metadata = Some (new_metadata a p t),
             source = source a\<rparr>) \<and>
   find_children src [None] = Inr (filter (\<lambda>x. parent_id x = None) src)"
  by (simp add: build_asset_create_def find_children_def)

theorem build_asset_create_payload_witness:
  "build_asset_create
     \<lparr>asset_id = Some 1, external_id = Some ''pump'', name = Some ''Pump'', parent_id = None,
      description = None, metadata = None, source = Some ''sap''\<rparr> Map.empty ''src'' 5000 0 =
     Inr \<lparr>asset_id = None, external_id = Some ''pump'', name = Some ''Pump'', parent_id = None,
          description = None,
          metadata = Some [(''_replicatedSource'', ''src''), (''_replicatedInternalId'', ''1''),
                           (''_replicatedTime'', ''5000'')],
          source = Some ''sap''\<rparr> \<and>
   build_asset_create
     \<lparr>asset_id = Some 2, external_id = Some ''valve'', name = Some ''Valve'', parent_id = Some 1,
      description = None, metadata = Some [(''site'', ''Oslo'')], source = None\<rparr>
     [1 \<mapsto> 100] ''src'' 5000 1 =
     Inr \<lparr>asset_id = None, external_id = Some ''valve'', name = Some ''Valve'',
          parent_id = Some 100, description = None,
          metadata = Some [(''site'', ''Oslo''), (''_replicatedSource'', ''src''),
                           (''_replicatedInternalId'', ''2''), (''_replicatedTime'', ''5000'')],
          source = None\<rparr>"
  using build_asset_create_payload [of 0 "\<lparr>asset_id = Some 1, external_id = Some ''pump'', name = Some ''Pump'', parent_id = None,
      description = None, metadata = None, source = Some ''sap''\<rparr>" Map.empty "''src''" 5000 1 100 "[]"]
    build_asset_create_payload [of 1 "\<lparr>asset_id = Some 2, external_id = Some ''valve'', name = Some ''Valve'', parent_id = Some 1,
      description = None, metadata = Some [(''site'', ''Oslo'')], source = None\<rparr>" "[1 \<mapsto> 100]" "''src''" 5000 1 100 "[]"]
  by (simp add: new_metadata_def py_eval)

subsection \<open>Missing parent mapping\<close>

text \<open>
  Claim C7. At a depth above 0, when the parent id of the source asset is not a key
  of the id mapping, no payload is returned: the lookup raises \<open>KeyError\<close>. At depth
  0 the mapping has no influence on the result, which is always a payload.
\<close>

theorem build_asset_create_missing_parent:
  "(0 < depth \<and> parent_id a \<notin> Some ` dom m \<longrightarrow>
      build_asset_create a m p t depth = Inl KeyError) \<and>
   (depth \<le> 0 \<longrightarrow> (\<exists>payload. \<forall>m'. build_asset_create a m' p t depth = Inr payload))"
  by (auto simp: build_asset_create_def split: option.splits)

theorem build_asset_create_missing_parent_witness:
  "build_asset_create
     \<lparr>asset_id = Some 2, external_id = Some ''valve'', name = Some ''Valve'', parent_id = Some 1,
      description = None, metadata = None, source = None\<rparr> [7 \<mapsto> 100] ''src'' 5000 1
     = Inl KeyError \<and>
   (\<exists>payload. \<forall>m'. build_asset_create
     \<lparr>asset_id = Some 2, external_id = Some ''valve'', name = Some ''Valve'', parent_id = Some 1,
      description = None, metadata = None, source = None\<rparr> m' ''src'' 5000 0 = Inr payload)"
  using build_asset_create_missing_parent [of 1 "\<lparr>asset_id = Some 2, external_id = Some ''valve'', name = Some ''Valve'', parent_id = Some 1,
      description = None, metadata = None, source = None\<rparr>" "[7 \<mapsto> 100]" "''src''" 5000]
    build_asset_create_missing_parent [of 0 "\<lparr>asset_id = Some 2, external_id = Some ''valve'', name = Some ''Valve'', parent_id = Some 1,
      description = None, metadata = None, source = None\<rparr>" "[7 \<mapsto> 100]" "''src''" 5000]
  by simp

subsection \<open>Sweep A on the specification's example\<close>

text \<open>
  Claim C1. On the example of the specification (destination assets X, tagged with
  source id 1, and Y, tagged with source id 2; source assets: id 1 only) the sweep
  as written selects X, whose source asset still exists, and keeps Y, whose source
  asset is gone: the membership test of the inner \<open>if\<close> is not negated.
\<close>

theorem sweep_a_deletes_asset_still_in_source:
  "remove_replicated_if_not_in_src
     [\<lparr>asset_id = Some 1, external_id = None, name = Some ''A'', parent_id = None,
       description = None, metadata = None, source = None\<rparr>]
     memory_client
     \<lparr>store_assets =
        [\<lparr>asset_id = Some 10, external_id = None, name = Some ''X'', parent_id = None,
          description = None,
          metadata = Some [(''_replicatedSource'', ''src''), (''_replicatedInternalId'', ''1'')],
          source = None\<rparr>,
         \<lparr>asset_id = Some 20, external_id = None, name = Some ''Y'', parent_id = None,
          description = None,
          metadata = Some [(''_replicatedSource'', ''src''), (''_replicatedInternalId'', ''2'')],
          source = None\<rparr>],
      next_id = 21\<rparr>
   = Inr ([Some 10],
          \<lparr>store_assets =
             [\<lparr>asset_id = Some 20, external_id = None, name = Some ''Y'', parent_id = None,
               description = None,
               metadata = Some [(''_replicatedSource'', ''src''), (''_replicatedInternalId'', ''2'')],
               source = None\<rparr>],
           next_id = 21\<rparr>)"
  by (simp add: remove_replicated_if_not_in_src_def memory_client_def store_delete_def py_eval)

subsection \<open>Sweep B on an organic asset with metadata\<close>

text \<open>
  Claim C5. With a tagged asset X and an untagged asset Z that has metadata of its
  own, the subscript \<open>asset.metadata["_replicatedSource"]\<close> raises \<open>KeyError\<close> at Z:
  the sweep ends without deleting anything.
\<close>

theorem sweep_b_raises_on_untagged_metadata:
  "remove_not_replicated_in_dst memory_client
     \<lparr>store_assets =
        [\<lparr>asset_id = Some 10, external_id = None, name = Some ''X'', parent_id = None,
          description = None,
          metadata = Some [(''_replicatedSource'', ''src''), (''_replicatedInternalId'', ''1'')],
          source = None\<rparr>,
         \<lparr>asset_id = Some 30, external_id = None, name = Some ''Z'', parent_id = None,
          description = None, metadata = Some [(''site'', ''Oslo'')], source = None\<rparr>],
      next_id = 31\<rparr>
   = Inl KeyError"
  by (simp add: remove_not_replicated_in_dst_def memory_client_def store_delete_def py_eval)

subsection \<open>Metadata lookups of the sweeps\<close>

text \<open>
  Claim C6. On a destination asset whose non-empty metadata lacks the replication
  keys, the selection loops of both sweeps raise \<open>KeyError\<close>; on a tag that is not a
  number, the loop of sweep A raises \<open>ValueError\<close>.
\<close>

theorem sweeps_raise_on_metadata_without_tag:
  "not_replicated_ids
     [\<lparr>asset_id = Some 30, external_id = None, name = Some ''Z'', parent_id = None,
       description = None, metadata = Some [(''site'', ''Oslo'')], source = None\<rparr>] []
     = Inl KeyError \<and>
   replicated_ids_in_src [Some 1]
     [\<lparr>asset_id = Some 30, external_id = None, name = Some ''Z'', parent_id = None,
       description = None, metadata = Some [(''site'', ''Oslo'')], source = None\<rparr>] []
     = Inl KeyError \<and>
   replicated_ids_in_src [Some 1]
     [\<lparr>asset_id = Some 40, external_id = None, name = Some ''W'', parent_id = None,
       description = None,
       metadata = Some [(''_replicatedSource'', ''src''), (''_replicatedInternalId'', ''n/a'')],
       source = None\<rparr>] []
     = Inl ValueError"
  by (simp add: py_eval)

subsection \<open>Parent before child\<close>

text \<open>
  Claim C2. At the test of the loop condition of any pass at a depth above 0, every
  selected asset has a parent id that is a key of \<open>src_dst_ids\<close>, and its create
  payload is built with that entry as parent reference. The proviso that the
  parent's outcome succeeded is the \<open>faithful\<close> client together with internal ids
  on all listed assets.
\<close>

theorem parent_mapped_before_child:
  assumes "walk client src dst p t st s"
    and "faithful client"
    and "\<forall>a\<in>set src. asset_id a \<noteq> None"
    and "\<forall>d\<in>set dst. asset_id d \<noteq> None"
    and "0 < fst s" and "a \<in> set (fst (snd s))"
  shows "\<exists>i v. parent_id a = Some i \<and> fst (snd (snd s)) i = Some v \<and>
           (\<exists>c. build_asset_create a (fst (snd (snd s))) p t (fst s) = Inr c \<and>
                parent_id c = Some v)"
proof -
  from walk_parent_mapped[OF assms] obtain i v where
    iv: "parent_id a = Some i" "fst (snd (snd s)) i = Some v" by blast
  with assms(5) have "\<exists>c. build_asset_create a (fst (snd (snd s))) p t (fst s) = Inr c \<and>
      parent_id c = Some v"
    by (simp add: build_asset_create_def)
  with iv show ?thesis by blast
qed

theorem parent_mapped_before_child_witness:
  "walk memory_client [root1, child2] [stale_root] ''src'' 5000 seeded_store
     (1, [child2], [1 \<mapsto> 100],
      \<lparr>store_assets =
         [\<lparr>asset_id = Some 100, external_id = Some ''root'', name = Some ''Root'',
           parent_id = None, description = None,
           metadata = Some [(''_replicatedSource'', ''src''), (''_replicatedInternalId'', ''1''),
                            (''_replicatedTime'', ''5000'')],
           source = None\<rparr>],
       next_id = 101\<rparr>) \<and>
   faithful memory_client \<and>
   (\<exists>i v. parent_id child2 = Some i \<and> [1 \<mapsto> 100] i = Some v \<and>
      (\<exists>c. build_asset_create child2 [1 \<mapsto> 100] ''src'' 5000 1 = Inr c \<and> parent_id c = Some v))"
proof -
  let ?s1 = "(1::int, [child2], [1 \<mapsto> (100::int)],
      \<lparr>store_assets =
         [\<lparr>asset_id = Some 100, external_id = Some ''root'', name = Some ''Root'',
           parent_id = None, description = None,
           metadata = Some [(''_replicatedSource'', ''src''), (''_replicatedInternalId'', ''1''),
                            (''_replicatedTime'', ''5000'')],
           source = None\<rparr>],
       next_id = 101\<rparr>)"
  have w0: "walk memory_client [root1, child2] [stale_root] ''src'' 5000 seeded_store
              (0, [root1], Map.empty, seeded_store)"
    by (rule walk_start) (simp add: find_children_def root1_def child2_def)
  have st: "hierarchy_step memory_client [root1, child2] (make_id_object_map [stale_root]) ''src'' 5000
              (0, [root1], Map.empty, seeded_store) = Inr ?s1"
    by (simp add: run_eval root1_def child2_def stale_root_def seeded_store_def py_eval)
  have w1: "walk memory_client [root1, child2] [stale_root] ''src'' 5000 seeded_store ?s1"
    by (rule walk_next[OF w0 _ st]) simp
  have src: "\<forall>a\<in>set [root1, child2]. asset_id a \<noteq> None"
    by (simp add: root1_def child2_def)
  have dst: "\<forall>d\<in>set [stale_root]. asset_id d \<noteq> None"
    by (simp add: stale_root_def)
  from parent_mapped_before_child[OF w1 faithful_memory_client src dst, of child2]
  show ?thesis using w1 faithful_memory_client by simp
qed

subsection \<open>Termination of the depth loop\<close>

text \<open>
  Claim C9, amended. When every source asset has an internal id and no asset of the
  source list lies deeper than \<open>D\<close> (roots at depth 0), the children are empty after
  \<open>D + 1\<close> passes, the depth counter never exceeds \<open>D + 1\<close>, and \<open>create_hierarchy\<close>
  returns: with an error raised by a pass, or, on a client whose writes succeed,
  with the final id mapping.
\<close>

theorem create_hierarchy_terminates:
  assumes "\<forall>a\<in>set src. asset_id a \<noteq> None"
    and "\<forall>a\<in>set src. \<forall>d. has_depth src a d \<longrightarrow> d \<le> D"
  shows "levels src (Suc D) = [] \<and>
         (\<forall>s. walk client src dst p t st s \<longrightarrow> fst s \<le> int (Suc D)) \<and>
         (\<exists>r. create_hierarchy src dst p t client st = Some r) \<and>
         (faithful client \<and> (\<forall>d\<in>set dst. asset_id d \<noteq> None) \<longrightarrow>
            (\<exists>ids st'. create_hierarchy src dst p t client st = Some (Inr (ids, st'))))"
proof -
  have n: "levels src (Suc D) = []" using assms by (rule depth_bound_levels)
  have c: "create_hierarchy src dst p t client st =
           hierarchy_loop client src (make_id_object_map dst) p t (int 0, levels src 0, Map.empty, st)"
    by (simp add: create_hierarchy_def find_children_sentinel levels_0)
  have "\<exists>r. create_hierarchy src dst p t client st = Some r"
    unfolding c using n by (rule loop_terminates) simp
  moreover have "\<exists>ids st'. create_hierarchy src dst p t client st = Some (Inr (ids, st'))"
    if "faithful client" "\<forall>d\<in>set dst. asset_id d \<noteq> None"
    unfolding c using that(1) assms(1) that(2) n by (rule loop_returns) simp_all
  moreover have "\<forall>s. walk client src dst p t st s \<longrightarrow> fst s \<le> int (Suc D)"
    using walk_depth_bound[OF n, of client dst p t st] by simp
  ultimately show ?thesis using n by simp
qed

theorem create_hierarchy_terminates_witness:
  "levels [root1, child2] (Suc 1) = [] \<and>
   (\<exists>r. create_hierarchy [root1, child2] [stale_root] ''src'' 5000 memory_client seeded_store
      = Some r) \<and>
   (\<exists>ids st'. create_hierarchy [root1, child2] [stale_root] ''src'' 5000 memory_client seeded_store
      = Some (Inr (ids, st')))"
proof -
  have src: "\<forall>a\<in>set [root1, child2]. asset_id a \<noteq> None"
    by (simp add: root1_def child2_def)
  have dst: "\<forall>d\<in>set [stale_root]. asset_id d \<noteq> None"
    by (simp add: stale_root_def)
  have "levels [root1, child2] (Suc (Suc 0)) = []"
    by (simp add: levels_0 levels_Suc root1_def child2_def)
  then have D: "\<forall>a\<in>set [root1, child2]. \<forall>d. has_depth [root1, child2] a d \<longrightarrow> d \<le> 1"
    using levels_bound_depth[of "[root1, child2]" "Suc (Suc 0)"] by fastforce
  from create_hierarchy_terminates[OF src D, of memory_client "[stale_root]" "''src''" 5000
      seeded_store]
  show ?thesis using faithful_memory_client dst by simp
qed

text \<open>
  Claim C9 as stated: in a source of one root the only asset has depth 0, so the
  maximum depth is 0; the children are not empty after 0 passes and empty after 1:
  the loop needs one pass more than the maximum depth.
\<close>

theorem single_root_needs_one_iteration:
  "has_depth [root1] root1 0 \<and> levels [root1] 0 = [root1] \<and> levels [root1] (Suc 0) = []"
proof -
  have "has_depth [root1] root1 0" by (rule depth_root) (simp add: root1_def)
  moreover have "levels [root1] 0 = [root1]" by (simp add: levels_0 root1_def)
  moreover have "levels [root1] (Suc 0) = []" by (simp add: levels_0 levels_Suc root1_def)
  ultimately show ?thesis by simp
qed

subsection \<open>Unreachable source assets\<close>

text \<open>
  Claim C10. Every asset selected in a pass is a source asset reachable from a root
  by the parent relation; in a run that returns, every such asset is selected in
  some pass; and, on a client whose writes succeed, every key of the returned
  mapping is the internal id of such an asset.
\<close>

theorem unreachable_assets_skipped:
  "(walk client src dst p t st s \<and> a \<in> set (fst (snd s)) \<longrightarrow>
      a \<in> set src \<and> root_reachable src a) \<and>
   (create_hierarchy src dst p t client st = Some (Inr (ids, st')) \<and>
      a \<in> set src \<and> root_reachable src a \<longrightarrow>
      (\<exists>s. walk client src dst p t st s \<and> a \<in> set (fst (snd s)))) \<and>
   (faithful client \<and> create_hierarchy src dst p t client st = Some (Inr (ids, st')) \<and>
      ids i = Some v \<longrightarrow>
      (\<exists>b\<in>set src. root_reachable src b \<and> asset_id b = Some i))"
proof (intro conjI impI)
  assume "walk client src dst p t st s \<and> a \<in> set (fst (snd s))"
  then obtain d where "a \<in> set (levels src d)" using walk_levels by fastforce
  then show "a \<in> set src" "root_reachable src a"
    by (simp_all add: levels_subset levels_reachable)
next
  assume "create_hierarchy src dst p t client st = Some (Inr (ids, st')) \<and>
      a \<in> set src \<and> root_reachable src a"
  then show "\<exists>s. walk client src dst p t st s \<and> a \<in> set (fst (snd s))"
    using create_hierarchy_processes_reachable[of src dst p t client st ids st' a] by simp
next
  assume h: "faithful client \<and> create_hierarchy src dst p t client st = Some (Inr (ids, st')) \<and>
      ids i = Some v"
  then have r: "create_hierarchy src dst p t client st = Some (Inr (ids, st'))"
    and f: "faithful client" and i: "ids i = Some v" by simp_all
  from create_hierarchy_final_walk[OF r] obtain k where
    w: "walk client src dst p t st (k, [], ids, st')" ..
  from walk_dom[OF f w, of i v] i
  show "\<exists>b\<in>set src. root_reachable src b \<and> asset_id b = Some i" by simp
qed

theorem unreachable_assets_skipped_witness:
  "\<not> root_reachable [root1, child2, orphan3] orphan3 \<and>
   (\<exists>st'. create_hierarchy [root1, child2, orphan3] [] ''src'' 5000 memory_client empty_store
           = Some (Inr ([1 \<mapsto> 100, 2 \<mapsto> 101], st'))) \<and>
   child2 \<in> set [root1, child2, orphan3] \<and> root_reachable [root1, child2, orphan3] child2 \<and>
   (\<exists>s. walk memory_client [root1, child2, orphan3] [] ''src'' 5000 empty_store s \<and>
        child2 \<in> set (fst (snd s))) \<and>
   (\<exists>b\<in>set [root1, child2, orphan3].
      root_reachable [root1, child2, orphan3] b \<and> asset_id b = Some 2)"
proof -
  let ?src = "[root1, child2, orphan3]"
  let ?s1 = "(1::int, [child2], [1 \<mapsto> (100::int)],
      \<lparr>store_assets =
         [\<lparr>asset_id = Some 100, external_id = Some ''root'', name = Some ''Root'',
           parent_id = None, description = None,
           metadata = Some [(''_replicatedSource'', ''src''), (''_replicatedInternalId'', ''1''),
                            (''_replicatedTime'', ''5000'')],
           source = None\<rparr>],
       next_id = 101\<rparr>)"
  have no: "\<not> root_reachable ?src orphan3"
  proof
    assume "root_reachable ?src orphan3"
    then show False
      by (cases rule: root_reachable.cases) (auto simp: root1_def child2_def orphan3_def)
  qed
  have w0: "walk memory_client ?src [] ''src'' 5000 empty_store (0, [root1], Map.empty, empty_store)"
    by (rule walk_start) (simp add: find_children_def root1_def child2_def orphan3_def)
  have st: "hierarchy_step memory_client ?src (make_id_object_map []) ''src'' 5000
              (0, [root1], Map.empty, empty_store) = Inr ?s1"
    by (simp add: run_eval root1_def child2_def orphan3_def empty_store_def py_eval)
  have w1: "walk memory_client ?src [] ''src'' 5000 empty_store ?s1"
    by (rule walk_next[OF w0 _ st]) simp
  have "\<exists>st'. create_hierarchy ?src [] ''src'' 5000 memory_client empty_store
           = Some (Inr ([1 \<mapsto> 100, 2 \<mapsto> 101], st'))"
    by (simp add: run_eval root1_def child2_def orphan3_def empty_store_def py_eval)
  then obtain st' where run: "create_hierarchy ?src [] ''src'' 5000 memory_client empty_store
           = Some (Inr ([1 \<mapsto> 100, 2 \<mapsto> 101], st'))" ..
  have reach: "root_reachable ?src child2"
    by (rule reach_child[of root1 _ 1]) (simp_all add: reach_root root1_def child2_def)
  from unreachable_assets_skipped[of memory_client ?src "[]" "''src''" 5000 empty_store ?s1
      child2 "[1 \<mapsto> 100, 2 \<mapsto> 101]" st' 2 101]
  show ?thesis using no w1 run reach faithful_memory_client by simp
qed

subsection \<open>Two runs with sweep A enabled\<close>

text \<open>
  Claim C4. With \<open>delete_replicated_if_not_in_src\<close> set, a source of one root and an
  empty destination: the first run creates destination asset 100 and sweep A deletes
  it again, its source asset being present; the second run finds no counterpart and
  creates asset 101, which sweep A deletes as well.
\<close>

theorem replicate_twice_recreates_under_sweep_a:
  "replicate ''src'' memory_client \<lparr>store_assets = [root1], next_id = 2\<rparr>
     memory_client \<lparr>store_assets = [], next_id = 100\<rparr> 5 True False
     = Some (Inr \<lparr>store_assets = [], next_id = 101\<rparr>) \<and>
   replicate ''src'' memory_client \<lparr>store_assets = [root1], next_id = 2\<rparr>
     memory_client \<lparr>store_assets = [], next_id = 101\<rparr> 6 True False
     = Some (Inr \<lparr>store_assets = [], next_id = 102\<rparr>) \<and>
   (\<exists>st'. create_hierarchy [root1] [] ''src'' 5000 memory_client \<lparr>store_assets = [], next_id = 100\<rparr>
           = Some (Inr ([1 \<mapsto> 100], st'))) \<and>
   (\<exists>st'. create_hierarchy [root1] [] ''src'' 6000 memory_client \<lparr>store_assets = [], next_id = 101\<rparr>
           = Some (Inr ([1 \<mapsto> 101], st')))"
  by (simp add: replicate_def remove_replicated_if_not_in_src_def run_eval root1_def py_eval)

end
